theory Spec2Isabelle
  imports Main "HOL-Library.Word" "HOL-Library.Multiset"
begin

section \<open>Board model\<close>

text \<open>
  Tiles are \<open>uint8_t\<close>; sizes, indices and counters are C++ \<open>int\<close>, modelled as
  mathematical integers (every counter of the solver stays far below \<open>2^31\<close> for the
  budgets the callers pass). An index outside a vector or buffer is undefined behaviour
  in the source; the entry points of the model report it as the fault \<open>OutOfBounds\<close>.
\<close>

type_synonym uint8 = "8 word"

datatype fault = OutOfBounds

record PuzzleState =
  tiles :: "uint8 list"
  size' :: int
  empty' :: int

text \<open>\<open>PuzzleState(int sz)\<close>: all cells 0, \<open>empty = -1\<close>.\<close>

definition PuzzleState_sz :: "int \<Rightarrow> PuzzleState" where
  "PuzzleState_sz sz = \<lparr>tiles = replicate (nat (sz * sz)) 0, size' = sz, empty' = -1\<rparr>"

text \<open>
  \<open>PuzzleState(const uint8_t* arr, int sz)\<close>: copies \<open>sz*sz\<close> bytes and sets \<open>empty\<close>
  to the last index holding 0. The member has no initialiser, so without a 0 in the
  array it keeps an indeterminate value: the parameter \<open>e0\<close>.
\<close>

definition find_empty :: "uint8 list \<Rightarrow> nat \<Rightarrow> int \<Rightarrow> int" where
  "find_empty ts n e0 = foldl (\<lambda>e i. if ts ! i = 0 then int i else e) e0 [0..<n]"

definition PuzzleState_arr :: "int \<Rightarrow> uint8 list \<Rightarrow> int \<Rightarrow> PuzzleState" where
  "PuzzleState_arr e0 arr sz =
     (let ts = take (nat (sz * sz)) arr
      in \<lparr>tiles = ts, size' = sz, empty' = find_empty ts (nat (sz * sz)) e0\<rparr>)"

text \<open>
  \<open>isSolved\<close>: \<open>tiles[i] == i+1\<close> for \<open>i < size*size-1\<close> and the last cell 0. For
  \<open>size = 0\<close> the source reads \<open>tiles[-1]\<close>; \<open>solve_puzzle\<close> below guards that case.
\<close>

definition isSolved :: "PuzzleState \<Rightarrow> bool" where
  "isSolved s =
     (let n = nat (size' s * size' s)
      in list_all (\<lambda>i. unat (tiles s ! i) = i + 1) [0..<n - 1] \<and> tiles s ! (n - 1) = 0)"

section \<open>Input validation\<close>

text \<open>
  \<open>validate_input\<close>: \<open>cnt[s.tiles[i]]++\<close> for every cell, with no range check on the
  byte, then \<open>cnt[i] == 1\<close> for every \<open>i\<close>.
\<close>

fun count_loop :: "uint8 list \<Rightarrow> nat list \<Rightarrow> int list \<Rightarrow> fault + int list" where
  "count_loop ts [] cnt = Inr cnt"
| "count_loop ts (i # is) cnt =
     (let v = unat (ts ! i)
      in if v < length cnt then count_loop ts is (cnt[v := cnt ! v + 1])
         else Inl OutOfBounds)"

definition validate_input :: "PuzzleState \<Rightarrow> fault + bool" where
  "validate_input s =
     (let n = nat (size' s * size' s)
      in case count_loop (tiles s) [0..<n] (replicate n 0) of
           Inl e \<Rightarrow> Inl e
         | Inr cnt \<Rightarrow> Inr (list_all (\<lambda>i. cnt ! i = 1) [0..<n]))"

section \<open>Move application\<close>

text \<open>
  A move is the tile that slides into the blank. \<open>apply_moves\<close> and
  \<open>validate_solution\<close> look the tile up (last index holding it, \<open>-1\<close> when absent)
  and swap it with the blank; \<open>tiles[-1]\<close> is out of bounds.
\<close>

definition find_tile :: "uint8 list \<Rightarrow> nat \<Rightarrow> uint8 \<Rightarrow> int" where
  "find_tile ts n mv = foldl (\<lambda>from j. if ts ! j = mv then int j else from) (-1) [0..<n]"

definition swap_at :: "'a list \<Rightarrow> nat \<Rightarrow> nat \<Rightarrow> 'a list" where
  "swap_at xs i j = xs[i := xs ! j, j := xs ! i]"

definition in_range :: "'a list \<Rightarrow> int \<Rightarrow> bool" where
  "in_range xs i = (0 \<le> i \<and> i < int (length xs))"

definition apply_move :: "PuzzleState \<Rightarrow> uint8 \<Rightarrow> fault + PuzzleState" where
  "apply_move s mv =
     (let from = find_tile (tiles s) (nat (size' s * size' s)) mv
      in if in_range (tiles s) (empty' s) \<and> in_range (tiles s) from
         then Inr (s\<lparr>tiles := swap_at (tiles s) (nat (empty' s)) (nat from), empty' := from\<rparr>)
         else Inl OutOfBounds)"

fun apply_moves :: "PuzzleState \<Rightarrow> uint8 list \<Rightarrow> fault + PuzzleState" where
  "apply_moves s [] = Inr s"
| "apply_moves s (mv # moves) =
     (case apply_move s mv of Inl e \<Rightarrow> Inl e | Inr s' \<Rightarrow> apply_moves s' moves)"

text \<open>
  \<open>validate_solution(arr, sz, moves, n_moves)\<close>: the same replay on a fresh state,
  reading \<open>n_moves\<close> bytes of \<open>moves\<close>; 1 when the final board is solved, else 0.
\<close>

definition validate_solution :: "int \<Rightarrow> uint8 list \<Rightarrow> int \<Rightarrow> uint8 list \<Rightarrow> int \<Rightarrow> fault + int" where
  "validate_solution e0 arr sz moves n_moves =
     (if int (length arr) < sz * sz \<or> int (length moves) < n_moves \<or> sz = 0 then Inl OutOfBounds
      else case apply_moves (PuzzleState_arr e0 arr sz) (take (nat n_moves) moves) of
             Inl e \<Rightarrow> Inl e
           | Inr s \<Rightarrow> Inr (if isSolved s then 1 else 0))"

section \<open>Heuristics\<close>

text \<open>C++ \<open>/\<close> and \<open>%\<close> on \<open>int\<close> truncate towards zero.\<close>

definition tdiv :: "int \<Rightarrow> int \<Rightarrow> int" where
  "tdiv a b = sgn a * sgn b * (\<bar>a\<bar> div \<bar>b\<bar>)"

definition tmod :: "int \<Rightarrow> int \<Rightarrow> int" where
  "tmod a b = a - b * tdiv a b"

definition INT_MAX :: int where
  "INT_MAX = 2147483647"

definition dir4 :: "(int \<times> int) list" where
  "dir4 = [(-1, 0), (1, 0), (0, -1), (0, 1)]"

text \<open>The contribution of cell \<open>i\<close> holding \<open>v\<close> to \<open>manhattan\<close>.\<close>

definition tile_dist :: "int \<Rightarrow> nat \<Rightarrow> uint8 \<Rightarrow> int" where
  "tile_dist sz i v =
     (if v = 0 then 0
      else let gi = uint v - 1; gr = tdiv gi sz; gc = tmod gi sz;
               cr = tdiv (int i) sz; cc = tmod (int i) sz
           in \<bar>gr - cr\<bar> + \<bar>gc - cc\<bar>)"

definition manhattan :: "PuzzleState \<Rightarrow> int" where
  "manhattan state =
     (let sz = size' state
      in sum_list (map (\<lambda>i. tile_dist sz i (tiles state ! i)) [0..<nat (sz * sz)]))"

subsection \<open>Symmetry helpers\<close>

definition rotate90 :: "uint8 list \<Rightarrow> int \<Rightarrow> uint8 list" where
  "rotate90 t sz =
     foldl (\<lambda>res (r, c). res[c * nat sz + nat sz - 1 - r := t ! (r * nat sz + c)])
       (replicate (nat (sz * sz)) 0) (List.product [0..<nat sz] [0..<nat sz])"

definition reflect_h :: "uint8 list \<Rightarrow> int \<Rightarrow> uint8 list" where
  "reflect_h t sz =
     foldl (\<lambda>res (r, c). res[r * nat sz + nat sz - 1 - c := t ! (r * nat sz + c)])
       (replicate (nat (sz * sz)) 0) (List.product [0..<nat sz] [0..<nat sz])"

definition all_symmetries :: "uint8 list \<Rightarrow> int \<Rightarrow> uint8 list list" where
  "all_symmetries t sz =
     (let r90 = rotate90 t sz; r180 = rotate90 r90 sz; r270 = rotate90 r180 sz
      in [t, r90, r180, r270, reflect_h t sz, reflect_h r90 sz, reflect_h r180 sz,
          reflect_h r270 sz])"

section \<open>Pattern database\<close>

text \<open>
  The three process-wide tables, keyed by the bytes of a layout. Only
  \<open>pdb_4x4_stage1\<close> and \<open>pdb_5x5_stage1\<close> are ever filled (by \<open>build_pdb\<close>).
\<close>

type_synonym pdb = "uint8 list \<rightharpoonup> int"

record globals =
  pdb_4x4_stage1 :: pdb
  pdb_5x5_stage1 :: pdb
  pdb_5x5_stage2 :: pdb

text \<open>
  The start layout of \<open>build_pdb\<close>: \<open>solved[i] = i+1\<close> for \<open>i < ntiles\<close>, every other
  cell 0 (the last cell is set to 0 again at the end).
\<close>

definition pdb_start :: "int \<Rightarrow> int \<Rightarrow> uint8 list" where
  "pdb_start sz ntiles =
     (foldl (\<lambda>solved i. solved[i := of_nat (i + 1)]) (replicate (nat (sz * sz)) 0)
        [0..<nat ntiles])[nat (sz * sz) - 1 := 0]"

text \<open>
  The cell next to the blank \<open>e\<close> in direction \<open>d\<close>, as every search loop computes it:
  \<open>r = e/sz, c = e%sz, nr = r+dir4[d][0], nc = c+dir4[d][1]\<close>, skipped when off the
  grid, else \<open>ni = nr*sz+nc\<close>.
\<close>

definition neighbour :: "int \<Rightarrow> int \<Rightarrow> nat \<Rightarrow> int option" where
  "neighbour sz e d =
     (let r = tdiv e sz; c = tmod e sz;
          nr = r + fst (dir4 ! d); nc = c + snd (dir4 ! d)
      in if nr < 0 \<or> nr \<ge> sz \<or> nc < 0 \<or> nc \<ge> sz then None else Some (nr * sz + nc))"

text \<open>
  One direction of the inner \<open>for\<close> loop of \<open>build_pdb\<close>, on the popped layout \<open>ts\<close>
  with blank \<open>e\<close>: the child is dropped when it leaves the grid, when one of the tiles
  \<open>1..ntiles\<close> is off its goal cell, or when it was seen.
\<close>

definition pdb_child ::
  "int \<Rightarrow> int \<Rightarrow> uint8 list \<Rightarrow> int \<Rightarrow> int \<Rightarrow>
   (uint8 list \<times> int) list \<times> uint8 list set \<Rightarrow> nat \<Rightarrow>
   (uint8 list \<times> int) list \<times> uint8 list set" where
  "pdb_child sz ntiles ts depth e QS d =
     (case neighbour sz e d of
        None \<Rightarrow> QS
      | Some ni \<Rightarrow>
          let nt = swap_at ts (nat e) (nat ni);
              valid = list_all (\<lambda>i. uint (nt ! i) = int i + 1) [0..<nat ntiles]
          in if \<not> valid then QS
             else if nt \<in> snd QS then QS
             else (fst QS @ [(nt, depth + 1)], insert nt (snd QS)))"

function pdb_loop ::
  "int \<Rightarrow> int \<Rightarrow> int \<Rightarrow> (uint8 list \<times> int) list \<Rightarrow> uint8 list set \<Rightarrow> pdb \<Rightarrow> pdb" where
  "pdb_loop sz ntiles max_depth [] Seen p = p"
| "pdb_loop sz ntiles max_depth ((ts, depth) # Q) Seen p =
     (let p' = p(ts \<mapsto> depth)
      in if depth \<ge> max_depth then pdb_loop sz ntiles max_depth Q Seen p'
         else let e = find_empty ts (nat (sz * sz)) (-1);
                  QS = foldl (pdb_child sz ntiles ts depth e) (Q, Seen) [0..<4]
              in pdb_loop sz ntiles max_depth (fst QS) (snd QS) p')"
  by pat_completeness auto

text \<open>
  Termination of the breadth-first loop: a child is queued only when it is new to
  \<open>Seen\<close>, it has the length of its parent, and there are finitely many byte
  layouts of a given length.
\<close>

lemma pdb_child_cases:
  "pdb_child sz ntiles ts depth e (Q, S) d = (Q, S) \<or>
   (\<exists>x. length x = length ts \<and> x \<notin> S \<and>
        pdb_child sz ntiles ts depth e (Q, S) d = (Q @ [(x, depth + 1)], insert x S))"
  by (auto simp: pdb_child_def swap_at_def Let_def split: option.splits)

lemma pdb_children_grow:
  "\<exists>new. foldl (pdb_child sz ntiles ts depth e) (Q, S) ds = (Q @ new, S \<union> fst ` set new) \<and>
     distinct (map fst new) \<and> (\<forall>x \<in> set new. length (fst x) = length ts \<and> fst x \<notin> S)"
proof (induction ds rule: rev_induct)
  case Nil
  show ?case by (rule exI [of _ "[]"]) simp
next
  case (snoc d ds)
  then obtain new where f: "foldl (pdb_child sz ntiles ts depth e) (Q, S) ds = (Q @ new, S \<union> fst ` set new)"
    and dn: "distinct (map fst new)" and ln: "\<forall>x \<in> set new. length (fst x) = length ts \<and> fst x \<notin> S"
    by blast
  from pdb_child_cases [of sz ntiles ts depth e "Q @ new" "S \<union> fst ` set new" d]
  show ?case
  proof
    assume "pdb_child sz ntiles ts depth e (Q @ new, S \<union> fst ` set new) d = (Q @ new, S \<union> fst ` set new)"
    with f dn ln show ?thesis by (intro exI [of _ new]) simp
  next
    assume "\<exists>x. length x = length ts \<and> x \<notin> S \<union> fst ` set new \<and>
        pdb_child sz ntiles ts depth e (Q @ new, S \<union> fst ` set new) d =
          ((Q @ new) @ [(x, depth + 1)], insert x (S \<union> fst ` set new))"
    then obtain x where x: "length x = length ts" "x \<notin> S \<union> fst ` set new"
      "pdb_child sz ntiles ts depth e (Q @ new, S \<union> fst ` set new) d =
          ((Q @ new) @ [(x, depth + 1)], insert x (S \<union> fst ` set new))" by blast
    with f dn ln show ?thesis by (intro exI [of _ "new @ [(x, depth + 1)]"]) auto
  qed
qed

definition pdb_universe :: "(uint8 list \<times> int) list \<Rightarrow> uint8 list set" where
  "pdb_universe Q = {xs. length xs \<in> (length \<circ> fst) ` set Q}"

lemma finite_pdb_universe: "finite (pdb_universe Q)"
proof -
  have "pdb_universe Q = (\<Union>n \<in> (length \<circ> fst) ` set Q. {xs. set xs \<subseteq> UNIV \<and> length xs = n})"
    by (auto simp: pdb_universe_def)
  also have "finite \<dots>" by (intro finite_UN_I finite_lists_length_eq) auto
  finally show ?thesis .
qed

termination pdb_loop
proof (relation "measure (\<lambda>(sz, ntiles, max_depth, Q, Seen, p).
          2 * card (pdb_universe Q - Seen) + length Q)", goal_cases)
  case 1
  show ?case by simp
next
  case (2 sz ntiles max_depth ts depth Q Seen p x)
  have "pdb_universe Q - Seen \<subseteq> pdb_universe ((ts, depth) # Q) - Seen"
    by (auto simp: pdb_universe_def)
  then have "card (pdb_universe Q - Seen) \<le> card (pdb_universe ((ts, depth) # Q) - Seen)"
    by (intro card_mono finite_Diff finite_pdb_universe)
  then show ?case by simp
next
  case (3 sz ntiles max_depth ts depth Q Seen p x xa xb)
  obtain new where f: "xb = (Q @ new, Seen \<union> fst ` set new)"
    and dn: "distinct (map fst new)"
    and ln: "\<forall>y \<in> set new. length (fst y) = length ts \<and> fst y \<notin> Seen"
    using pdb_children_grow [of sz ntiles ts depth xa Q Seen "[0..<4]"] 3 by auto
  let ?U = "pdb_universe ((ts, depth) # Q) - Seen"
  let ?N = "fst ` set new"
  have fin: "finite ?U" by (intro finite_Diff finite_pdb_universe)
  have NU: "?N \<subseteq> ?U" using ln by (auto simp: pdb_universe_def)
  have cN: "card ?N = length new" using dn by (metis distinct_card length_map set_map)
  have "pdb_universe (Q @ new) - (Seen \<union> ?N) \<subseteq> ?U - ?N"
    using ln by (auto simp: pdb_universe_def)
  then have "card (pdb_universe (Q @ new) - (Seen \<union> ?N)) \<le> card (?U - ?N)"
    by (intro card_mono finite_Diff fin)
  also have "\<dots> = card ?U - length new"
    using card_Diff_subset [of ?N ?U] NU fin cN by (simp add: finite_subset)
  finally have "card (pdb_universe (Q @ new) - (Seen \<union> ?N)) + length new \<le> card ?U"
    using card_mono [OF fin NU] cN by linarith
  with f show ?case by simp
qed

text \<open>
  \<open>build_pdb(sz, ntiles, pdb, max_depth)\<close>. Writing \<open>solved[i]\<close> for \<open>i \<ge> sz*sz\<close> or
  \<open>solved[sz*sz-1]\<close> for \<open>sz = 0\<close> is out of bounds.
\<close>

definition build_pdb :: "int \<Rightarrow> int \<Rightarrow> pdb \<Rightarrow> int \<Rightarrow> fault + pdb" where
  "build_pdb sz ntiles p max_depth =
     (if sz * sz = 0 \<or> ntiles > sz * sz then Inl OutOfBounds
      else let solved = pdb_start sz ntiles
           in Inr (pdb_loop sz ntiles max_depth [(solved, 0)] {solved} p))"

definition pdb_heuristic :: "globals \<Rightarrow> PuzzleState \<Rightarrow> int \<Rightarrow> int \<Rightarrow> int" where
  "pdb_heuristic G state stage sz =
     (let key = tiles state
      in if sz = 4 \<and> stage = 1 \<and> pdb_4x4_stage1 G key \<noteq> None then the (pdb_4x4_stage1 G key)
         else if sz = 5 \<and> stage = 1 \<and> pdb_5x5_stage1 G key \<noteq> None then the (pdb_5x5_stage1 G key)
         else if sz = 5 \<and> stage = 2 \<and> pdb_5x5_stage2 G key \<noteq> None then the (pdb_5x5_stage2 G key)
         else manhattan state)"

section \<open>IDA* search\<close>

text \<open>
  The variables the \<open>dfs\<close> closure of \<open>ida_star\<close> captures by reference and changes
  (\<open>nodes\<close>, \<open>TT\<close>, \<open>path\<close>, \<open>found\<close>, \<open>fail_reason\<close>), and those it only reads.
  The transposition table compares boards by their tiles alone, so it is a set of
  layouts.
\<close>

record dfs_vars =
  v_nodes :: int
  v_TT :: "uint8 list set"
  v_path :: "uint8 list"
  v_found :: bool
  v_fail_reason :: string

record ida_ctx =
  c_pdbs :: globals
  c_sz :: int
  c_stage :: int
  c_node_limit :: int
  c_locked :: "int set"
  c_threshold :: int

definition heuristic :: "ida_ctx \<Rightarrow> PuzzleState \<Rightarrow> int" where
  "heuristic C state =
     (if c_stage C = 1 then pdb_heuristic (c_pdbs C) state (c_stage C) (c_sz C)
      else manhattan state)"

text \<open>The child of \<open>state\<close> with the blank moved to cell \<open>ni\<close>.\<close>

definition slide :: "PuzzleState \<Rightarrow> int \<Rightarrow> PuzzleState" where
  "slide state ni =
     state\<lparr>tiles := swap_at (tiles state) (nat (empty' state)) (nat ni), empty' := ni\<rparr>"

text \<open>
  One direction of the loop in \<open>dfs\<close>: the child state, or \<open>None\<close> where the loop
  \<open>continue\<close>s (off the grid, locked destination, the move back to \<open>prev_empty\<close>, or
  a symmetric image of the child already in the table \<open>T\<close>).
\<close>

definition dfs_child ::
  "ida_ctx \<Rightarrow> PuzzleState \<Rightarrow> int \<Rightarrow> uint8 list set \<Rightarrow> nat \<Rightarrow> PuzzleState option" where
  "dfs_child C state prev_empty T d =
     (case neighbour (c_sz C) (empty' state) d of
        None \<Rightarrow> None
      | Some ni \<Rightarrow>
          if ni \<in> c_locked C then None
          else if prev_empty = ni then None
          else let nxt = slide state ni
               in if list_ex (\<lambda>s. s \<in> T) (all_symmetries (tiles nxt) (c_sz C)) then None
                  else Some nxt)"

text \<open>
  \<open>dfs(state, g, prev_empty)\<close> and its loop over the four directions
  (\<open>dfs_dirs\<close>, at direction \<open>d\<close> with the running \<open>min_threshold\<close>). Both return the
  value of the call and the updated captured variables.
\<close>

function dfs :: "ida_ctx \<Rightarrow> PuzzleState \<Rightarrow> int \<Rightarrow> int \<Rightarrow> dfs_vars \<Rightarrow> int \<times> dfs_vars"
  and dfs_dirs ::
    "ida_ctx \<Rightarrow> PuzzleState \<Rightarrow> int \<Rightarrow> int \<Rightarrow> nat \<Rightarrow> int \<Rightarrow> dfs_vars \<Rightarrow> int \<times> dfs_vars"
where
  "dfs C state g prev_empty V =
     (let V1 = V\<lparr>v_nodes := v_nodes V + 1\<rparr>
      in if v_nodes V1 > c_node_limit C then (INT_MAX, V1\<lparr>v_fail_reason := ''node_limit''\<rparr>)
         else let h = heuristic C state; f = g + h
              in if f > c_threshold C then (f, V1)
                 else if (c_stage C = 2 \<and> isSolved state) \<or> (c_stage C = 1 \<and> h = 0)
                      then (-1, V1\<lparr>v_found := True\<rparr>)
                      else dfs_dirs C state g prev_empty 0 INT_MAX
                             (V1\<lparr>v_TT := insert (tiles state) (v_TT V1)\<rparr>))"
| "dfs_dirs C state g prev_empty d min_threshold V =
     (if d \<ge> 4 then (min_threshold, V)
      else case dfs_child C state prev_empty (v_TT V) d of
             None \<Rightarrow> dfs_dirs C state g prev_empty (d + 1) min_threshold V
           | Some nxt \<Rightarrow>
               (case dfs C nxt (g + 1) (empty' state)
                       (V\<lparr>v_path := v_path V @ [tiles nxt ! nat (empty' state)]\<rparr>) of
                  (t, V2) \<Rightarrow>
                    if v_found V2 then (-1, V2)
                    else dfs_dirs C state g prev_empty (d + 1)
                           (if t < min_threshold then t else min_threshold)
                           (V2\<lparr>v_path := butlast (v_path V2)\<rparr>)))"
  by pat_completeness auto

text \<open>
  Every call increments \<open>nodes\<close> and stops once it exceeds \<open>node_limit\<close>, so the
  recursion ends; the counter never decreases across a call.
\<close>

lemma dfs_nodes_mono_p:
  "dfs_dfs_dirs_dom (Inl (C, state, g, p, V)) \<Longrightarrow> v_nodes V \<le> v_nodes (snd (dfs C state g p V))"
  "dfs_dfs_dirs_dom (Inr (C, state, g, p, d, mt, V)) \<Longrightarrow>
     v_nodes V \<le> v_nodes (snd (dfs_dirs C state g p d mt V))"
proof (induction C state g p V and C state g p d mt V rule: dfs_dfs_dirs.pinduct)
  case (1 C state g prev_empty V)
  show ?case
    using "1.IH" [OF refl _ refl refl]
    by (auto simp: dfs.psimps [OF "1.hyps"] Let_def)
next
  case (2 C state g prev_empty d min_threshold V)
  show ?case
  proof (cases "4 \<le> d")
    case True
    then show ?thesis by (simp add: dfs_dirs.psimps [OF "2.hyps"])
  next
    case d: False
    show ?thesis
    proof (cases "dfs_child C state prev_empty (v_TT V) d")
      case None
      with d "2.IH"(1) show ?thesis by (simp add: dfs_dirs.psimps [OF "2.hyps"])
    next
      case (Some nxt)
      obtain t V2 where r: "dfs C nxt (g + 1) (empty' state)
          (V\<lparr>v_path := v_path V @ [tiles nxt ! nat (empty' state)]\<rparr>) = (t, V2)"
        by (cases "dfs C nxt (g + 1) (empty' state)
          (V\<lparr>v_path := v_path V @ [tiles nxt ! nat (empty' state)]\<rparr>)") auto
      from "2.IH"(2) [OF d Some] r have a: "v_nodes V \<le> v_nodes V2" by simp
      show ?thesis
      proof (cases "v_found V2")
        case True
        with d Some r a show ?thesis by (simp add: dfs_dirs.psimps [OF "2.hyps"])
      next
        case False
        from "2.IH"(3) [OF d Some r [symmetric] False] a d Some r False
        show ?thesis by (simp add: dfs_dirs.psimps [OF "2.hyps"])
      qed
    qed
  qed
qed

termination dfs
proof (relation "(\<lambda>x. case x of
          Inl (C, state, g, p, V) \<Rightarrow> nat (c_node_limit C + 1 - v_nodes V)
        | Inr (C, state, g, p, d, mt, V) \<Rightarrow> nat (c_node_limit C + 1 - v_nodes V))
      <*mlex*> measure (\<lambda>x. case x of
          Inl (C, state, g, p, V) \<Rightarrow> 0
        | Inr (C, state, g, p, d, mt, V) \<Rightarrow> 5 - d)", goal_cases)
  case 1
  then show ?case by (simp add: wf_mlex)
next
  case (2 C state g prev_empty V x xa xb)
  then show ?case by (auto simp: mlex_iff)
next
  case (3 C state g prev_empty d min_threshold V)
  then show ?case by (auto simp: mlex_iff)
next
  case (4 C state g prev_empty d min_threshold V x2)
  then show ?case by (auto simp: mlex_iff)
next
  case (5 C state g prev_empty d min_threshold V x2 x y)
  from 5 have dom: "dfs_dfs_dirs_dom (Inl (C, x2, g + 1, empty' state,
      V\<lparr>v_path := v_path V @ [tiles x2 ! nat (empty' state)]\<rparr>))"
    and r: "dfs C x2 (g + 1) (empty' state)
      (V\<lparr>v_path := v_path V @ [tiles x2 ! nat (empty' state)]\<rparr>) = (x, y)"
    by simp_all
  have "v_nodes V \<le> v_nodes y"
    using dfs_nodes_mono_p(1) [OF dom] r by simp
  with 5(1) show ?case by (auto simp: mlex_iff)
qed

declare dfs.simps [simp del] dfs_dirs.simps [simp del]

text \<open>
  What a call returns when it did not find the goal: \<open>INT_MAX\<close>, or an f-cost above
  the threshold; the loop never returns more than its running minimum.
\<close>

lemma dfs_result:
  "dfs C state g p V = (r, V') \<Longrightarrow> \<not> v_found V' \<Longrightarrow>
     (r = INT_MAX \<or> c_threshold C < r) \<and> (g + heuristic C state \<le> c_threshold C \<longrightarrow> r \<le> INT_MAX)"
  "dfs_dirs C state g p d mt V = (r, V') \<Longrightarrow> \<not> v_found V' \<Longrightarrow>
     r \<le> mt \<and> (r = mt \<or> r = INT_MAX \<or> c_threshold C < r)"
proof (induction C state g p V and C state g p d mt V arbitrary: r V' and r V' rule: dfs_dfs_dirs.induct)
  case (1 C state g prev_empty V)
  from "1.prems" "1.IH" [OF refl _ refl refl] show ?case
    by (auto simp: dfs.simps [of C state g prev_empty V] Let_def split: if_splits)
next
  case (2 C state g prev_empty d min_threshold V)
  show ?case
  proof (cases "4 \<le> d")
    case True
    with "2.prems" show ?thesis by (simp add: dfs_dirs.simps [of C state g prev_empty d])
  next
    case d: False
    show ?thesis
    proof (cases "dfs_child C state prev_empty (v_TT V) d")
      case None
      with d "2.IH"(1) "2.prems" show ?thesis
        by (simp add: dfs_dirs.simps [of C state g prev_empty d])
    next
      case (Some nxt)
      obtain t V2 where r: "dfs C nxt (g + 1) (empty' state)
          (V\<lparr>v_path := v_path V @ [tiles nxt ! nat (empty' state)]\<rparr>) = (t, V2)"
        by (cases "dfs C nxt (g + 1) (empty' state)
          (V\<lparr>v_path := v_path V @ [tiles nxt ! nat (empty' state)]\<rparr>)") auto
      show ?thesis
      proof (cases "v_found V2")
        case True
        with d Some r "2.prems" show ?thesis
          by (simp add: dfs_dirs.simps [of C state g prev_empty d])
      next
        case False
        from "2.IH"(2) [OF d Some r False] have t: "t = INT_MAX \<or> c_threshold C < t" by simp
        from "2.prems" d Some r False
        have "dfs_dirs C state g prev_empty (d + 1) (if t < min_threshold then t else min_threshold)
            (V2\<lparr>v_path := butlast (v_path V2)\<rparr>) = (r, V')"
          by (simp add: dfs_dirs.simps [of C state g prev_empty d])
        from "2.IH"(3) [OF d Some r [symmetric] False this "2.prems"(2)] t
        show ?thesis by (auto split: if_splits)
      qed
    qed
  qed
qed

section \<open>The outer loop of \<open>ida_star\<close>\<close>

text \<open>
  \<open>IDAResult\<close>, \<open>BiBFSResult\<close> and \<open>ThreadResult\<close> are three structs with the same
  five members (\<open>moves, success, nodes, length, fail_reason\<close>).
\<close>

record IDAResult =
  r_moves :: "uint8 list"
  r_success :: bool
  r_nodes :: int
  r_length :: int
  r_fail_reason :: string

type_synonym BiBFSResult = IDAResult
type_synonym ThreadResult = IDAResult

text \<open>
  The \<open>while(true)\<close> loop of \<open>ida_star\<close>, at its \<open>k\<close>-th iteration. The wall clock
  is outside the program: \<open>clock k\<close> is the number of milliseconds elapsed when
  iteration \<open>k\<close> samples it.
\<close>

function ida_loop ::
  "(nat \<Rightarrow> int) \<Rightarrow> int \<Rightarrow> PuzzleState \<Rightarrow> nat \<Rightarrow> ida_ctx \<Rightarrow> dfs_vars \<Rightarrow> dfs_vars" where
  "ida_loop clock time_limit_ms start k C V =
     (case dfs C start 0 (-1) (V\<lparr>v_nodes := 0, v_TT := {}\<rparr>) of
        (r, V1) \<Rightarrow>
          if v_found V1 then V1
          else if r = INT_MAX \<or> v_nodes V1 > c_node_limit C
               then V1\<lparr>v_fail_reason := ''search_limit''\<rparr>
               else if clock k > time_limit_ms then V1\<lparr>v_fail_reason := ''timeout''\<rparr>
                    else ida_loop clock time_limit_ms start (k + 1) (C\<lparr>c_threshold := r\<rparr>) V1)"
  by pat_completeness auto

text \<open>
  Termination of the outer loop: an iteration that goes on has raised the threshold,
  and no threshold passes \<open>INT_MAX\<close>.
\<close>

lemma heuristic_threshold [simp]: "heuristic (C\<lparr>c_threshold := r\<rparr>) state = heuristic C state"
  by (simp add: heuristic_def)

lemma dfs_root_cut:
  assumes "dfs C state g p V = (r, V')" and "c_threshold C < g + heuristic C state"
  shows "r = INT_MAX \<or> r = g + heuristic C state"
  using assms by (auto simp: dfs.simps [of C state g p V] Let_def split: if_splits)

termination ida_loop
proof (relation "(\<lambda>(clock, time_limit_ms, start, k, C, V).
          if c_threshold C < heuristic C start then 1 else 0)
      <*mlex*> measure (\<lambda>(clock, time_limit_ms, start, k, C, V). nat (INT_MAX - c_threshold C))",
    goal_cases)
  case 1
  show ?case by (simp add: wf_mlex)
next
  case (2 clock time_limit_ms start k C V r V1)
  then have r: "dfs C start 0 (- 1) (V\<lparr>v_nodes := 0, v_TT := {}\<rparr>) = (r, V1)"
    and nf: "\<not> v_found V1" and ni: "r \<noteq> INT_MAX" by simp_all
  from dfs_result(1) [OF r nf] ni
  have gt: "c_threshold C < r" and le: "heuristic C start \<le> c_threshold C \<Longrightarrow> r \<le> INT_MAX"
    by simp_all
  show ?case
  proof (cases "c_threshold C < heuristic C start")
    case True
    with dfs_root_cut [OF r] ni have "r = heuristic C start" by simp
    with True show ?thesis by (simp add: mlex_iff)
  next
    case False
    with le ni gt have "r < INT_MAX" "heuristic C start \<le> r" by simp_all
    with False gt show ?thesis by (simp add: mlex_iff)
  qed
qed

declare ida_loop.simps [simp del]

text \<open>
  \<open>ida_star(start, sz, max_depth, stage, node_limit, time_limit_ms, locked)\<close>. The
  parameter \<open>max_depth\<close> is not used by the source. The globals and the clock are the
  environment of the call.
\<close>

definition ida_star ::
  "globals \<Rightarrow> (nat \<Rightarrow> int) \<Rightarrow> PuzzleState \<Rightarrow> int \<Rightarrow> int \<Rightarrow> int \<Rightarrow> int \<Rightarrow> int \<Rightarrow> int set \<Rightarrow>
   IDAResult" where
  "ida_star G clock start sz max_depth stage node_limit time_limit_ms locked =
     (let threshold = (if stage = 1 then pdb_heuristic G start stage sz else manhattan start);
          C = \<lparr>c_pdbs = G, c_sz = sz, c_stage = stage, c_node_limit = node_limit,
               c_locked = locked, c_threshold = threshold\<rparr>;
          V = ida_loop clock time_limit_ms start 0 C
                \<lparr>v_nodes = 0, v_TT = {}, v_path = [], v_found = False, v_fail_reason = []\<rparr>
      in \<lparr>r_moves = v_path V, r_success = v_found V, r_nodes = v_nodes V,
          r_length = int (length (v_path V)), r_fail_reason = v_fail_reason V\<rparr>)"

definition thread_ida_search ::
  "globals \<Rightarrow> (nat \<Rightarrow> int) \<Rightarrow> PuzzleState \<Rightarrow> int \<Rightarrow> int \<Rightarrow> int \<Rightarrow> int \<Rightarrow> int \<Rightarrow> int set \<Rightarrow>
   ThreadResult" where
  "thread_ida_search G clock start sz max_depth stage node_limit time_limit_ms locked =
     (let res = ida_star G clock start sz max_depth stage node_limit time_limit_ms locked
      in \<lparr>r_moves = r_moves res, r_success = r_success res, r_nodes = r_nodes res,
          r_length = r_length res, r_fail_reason = r_fail_reason res\<rparr>)"

section \<open>The breadth-first fallback\<close>

text \<open>The goal board built at the start of \<open>bibfs\<close> (for \<open>sz \<noteq> 0\<close>).\<close>

definition goal_state :: "int \<Rightarrow> PuzzleState" where
  "goal_state sz =
     (let n = nat (sz * sz)
      in (PuzzleState_sz sz)
           \<lparr>tiles := (foldl (\<lambda>t i. t[i := of_nat (i + 1)]) (replicate n 0) [0..<n - 1])[n - 1 := 0],
            empty' := sz * sz - 1\<rparr>)"

text \<open>One direction of the loop in \<open>bibfs\<close>, on the popped item \<open>(state, ms)\<close>.\<close>

definition bibfs_child ::
  "int \<Rightarrow> int set \<Rightarrow> PuzzleState \<Rightarrow> uint8 list \<Rightarrow>
   (PuzzleState \<times> uint8 list) list \<times> uint8 list set \<Rightarrow> nat \<Rightarrow>
   (PuzzleState \<times> uint8 list) list \<times> uint8 list set" where
  "bibfs_child sz locked state ms QV d =
     (case neighbour sz (empty' state) d of
        None \<Rightarrow> QV
      | Some ni \<Rightarrow>
          if ni \<in> locked then QV
          else let nxt = slide state ni
               in if tiles nxt \<in> snd QV then QV
                  else (fst QV @ [(nxt, ms @ [tiles nxt ! nat (empty' state)])],
                        insert (tiles nxt) (snd QV)))"

function bibfs_loop ::
  "int \<Rightarrow> int \<Rightarrow> int \<Rightarrow> int set \<Rightarrow> PuzzleState \<Rightarrow>
   (PuzzleState \<times> uint8 list) list \<Rightarrow> uint8 list set \<Rightarrow> int \<Rightarrow> BiBFSResult" where
  "bibfs_loop sz max_depth node_limit locked goal Q Vis nodes =
     (case Q of
        [] \<Rightarrow> \<lparr>r_moves = [], r_success = False, r_nodes = nodes, r_length = 0,
               r_fail_reason = ''failed''\<rparr>
      | (state, ms) # Q' \<Rightarrow>
          if \<not> nodes < node_limit
          then \<lparr>r_moves = [], r_success = False, r_nodes = nodes, r_length = 0,
                r_fail_reason = ''failed''\<rparr>
          else if tiles state = tiles goal
          then \<lparr>r_moves = ms, r_success = True, r_nodes = nodes + 1,
                r_length = int (length ms), r_fail_reason = []\<rparr>
          else if int (length ms) \<ge> max_depth
          then bibfs_loop sz max_depth node_limit locked goal Q' Vis (nodes + 1)
          else let QV = foldl (bibfs_child sz locked state ms) (Q', Vis) [0..<4]
               in bibfs_loop sz max_depth node_limit locked goal (fst QV) (snd QV) (nodes + 1))"
  by pat_completeness auto
termination
  by (relation "measure (\<lambda>(sz, max_depth, node_limit, locked, goal, Q, Vis, nodes).
            nat (node_limit - nodes))") auto

declare bibfs_loop.simps [simp del]

text \<open>\<open>bibfs(start, sz, max_depth, stage, node_limit, locked)\<close>; \<open>stage\<close> is not used.\<close>

definition bibfs ::
  "PuzzleState \<Rightarrow> int \<Rightarrow> int \<Rightarrow> int \<Rightarrow> int \<Rightarrow> int set \<Rightarrow> BiBFSResult" where
  "bibfs start sz max_depth stage node_limit locked =
     bibfs_loop sz max_depth node_limit locked (goal_state sz) [(start, [])] {tiles start} 0"

section \<open>Stage-wise solving\<close>

text \<open>The locals of \<open>solve_4x4\<close> and \<open>solve_5x5\<close> that the stages change.\<close>

record solver =
  s_cur :: PuzzleState
  s_locked :: "int set"
  s_all_moves :: "uint8 list"

text \<open>
  One iteration of the stage-1 loop, for prefix tile \<open>i+1\<close> at cell \<open>i\<close>: \<open>None\<close> is
  the early \<open>return -1\<close>. The \<open>i\<close>-th search reads the clock \<open>clk i\<close>.
\<close>

definition stage1_step ::
  "globals \<Rightarrow> (nat \<Rightarrow> nat \<Rightarrow> int) \<Rightarrow> int \<Rightarrow> int \<Rightarrow> int \<Rightarrow> int \<Rightarrow> nat \<Rightarrow> solver \<Rightarrow>
   fault + solver option" where
  "stage1_step G clk sz max_depth node_limit time_limit i S =
     (let goal_idx = i
      in if uint (tiles (s_cur S) ! goal_idx) = int i + 1
         then Inr (Some (S\<lparr>s_locked := insert (int goal_idx) (s_locked S)\<rparr>))
         else let res = ida_star G (clk i) (s_cur S) sz max_depth 1 node_limit time_limit (s_locked S)
              in if \<not> r_success res then Inr None
                 else case apply_moves (s_cur S) (r_moves res) of
                        Inl e \<Rightarrow> Inl e
                      | Inr c \<Rightarrow>
                          Inr (Some \<lparr>s_cur = c, s_locked = insert (int goal_idx) (s_locked S),
                                     s_all_moves = s_all_moves S @ r_moves res\<rparr>))"

text \<open>The state after the first \<open>n\<close> iterations of \<open>for(int i=0;i<...;i++)\<close>.\<close>

primrec stage1_loop ::
  "globals \<Rightarrow> (nat \<Rightarrow> nat \<Rightarrow> int) \<Rightarrow> int \<Rightarrow> int \<Rightarrow> int \<Rightarrow> int \<Rightarrow> nat \<Rightarrow> solver \<Rightarrow>
   fault + solver option" where
  "stage1_loop G clk sz max_depth node_limit time_limit 0 S = Inr (Some S)"
| "stage1_loop G clk sz max_depth node_limit time_limit (Suc i) S =
     (case stage1_loop G clk sz max_depth node_limit time_limit i S of
        Inr (Some S') \<Rightarrow> stage1_step G clk sz max_depth node_limit time_limit i S'
      | other \<Rightarrow> other)"

text \<open>
  The output buffer is the memory behind the pointer \<open>moves_out\<close>: a function from
  offsets to bytes. A successful branch applies the moves, appends them, copies
  \<open>all_moves\<close> to the buffer and returns its length.
\<close>

definition write_moves :: "uint8 list \<Rightarrow> (nat \<Rightarrow> uint8) \<Rightarrow> nat \<Rightarrow> uint8" where
  "write_moves ms moves_out = (\<lambda>i. if i < length ms then ms ! i else moves_out i)"

definition finish ::
  "solver \<Rightarrow> uint8 list \<Rightarrow> (nat \<Rightarrow> uint8) \<Rightarrow> fault + int \<times> (nat \<Rightarrow> uint8)" where
  "finish S ms moves_out =
     (case apply_moves (s_cur S) ms of
        Inl e \<Rightarrow> Inl e
      | Inr c \<Rightarrow>
          let am = s_all_moves S @ ms
          in Inr (int (length am), write_moves am moves_out))"

definition solve_4x4 ::
  "globals \<Rightarrow> (nat \<Rightarrow> nat \<Rightarrow> int) \<Rightarrow> PuzzleState \<Rightarrow> (nat \<Rightarrow> uint8) \<Rightarrow>
   fault + (int \<times> (nat \<Rightarrow> uint8)) \<times> globals" where
  "solve_4x4 G clk start moves_out =
     (case (if pdb_4x4_stage1 G = Map.empty
            then map_sum id (\<lambda>p. G\<lparr>pdb_4x4_stage1 := p\<rparr>) (build_pdb 4 6 (pdb_4x4_stage1 G) 14)
            else Inr G) of
        Inl e \<Rightarrow> Inl e
      | Inr G' \<Rightarrow>
          (case stage1_loop G' clk 4 18 300000 4000 6
                  \<lparr>s_cur = start, s_locked = {}, s_all_moves = []\<rparr> of
             Inl e \<Rightarrow> Inl e
           | Inr None \<Rightarrow> Inr ((-1, moves_out), G')
           | Inr (Some S) \<Rightarrow>
               let res2 = ida_star G' (clk 6) (s_cur S) 4 40 2 800000 16000 (s_locked S)
               in if r_success res2
                  then map_sum id (\<lambda>r. (r, G')) (finish S (r_moves res2) moves_out)
                  else let res3 = bibfs (s_cur S) 4 40 2 200000 (s_locked S)
                       in if r_success res3
                          then map_sum id (\<lambda>r. (r, G')) (finish S (r_moves res3) moves_out)
                          else Inr ((-1, moves_out), G')))"

text \<open>
  \<open>solve_5x5\<close>: the four worker threads run the same search on the same board; each has
  its own table and clock, and they share nothing they write. The first successful
  result in worker order is taken.
\<close>

definition solve_5x5 ::
  "globals \<Rightarrow> (nat \<Rightarrow> nat \<Rightarrow> int) \<Rightarrow> PuzzleState \<Rightarrow> (nat \<Rightarrow> uint8) \<Rightarrow>
   fault + (int \<times> (nat \<Rightarrow> uint8)) \<times> globals" where
  "solve_5x5 G clk start moves_out =
     (case (if pdb_5x5_stage1 G = Map.empty
            then map_sum id (\<lambda>p. G\<lparr>pdb_5x5_stage1 := p\<rparr>) (build_pdb 5 12 (pdb_5x5_stage1 G) 16)
            else Inr G) of
        Inl e \<Rightarrow> Inl e
      | Inr G' \<Rightarrow>
          (case stage1_loop G' clk 5 25 250000 3000 12
                  \<lparr>s_cur = start, s_locked = {}, s_all_moves = []\<rparr> of
             Inl e \<Rightarrow> Inl e
           | Inr None \<Rightarrow> Inr ((-1, moves_out), G')
           | Inr (Some S) \<Rightarrow>
               let results = map (\<lambda>t. thread_ida_search G' (clk (12 + t)) (s_cur S) 5 60 2
                                         400000 9000 (s_locked S)) [0..<4]
               in case find r_success results of
                    Some res \<Rightarrow> map_sum id (\<lambda>r. (r, G')) (finish S (r_moves res) moves_out)
                  | None \<Rightarrow>
                      let res3 = bibfs (s_cur S) 5 60 2 400000 (s_locked S)
                      in if r_success res3
                         then map_sum id (\<lambda>r. (r, G')) (finish S (r_moves res3) moves_out)
                         else Inr ((-1, moves_out), G')))"

section \<open>Entry point\<close>

text \<open>
  \<open>solve_puzzle(arr, sz, moves_out)\<close> returns its \<open>int\<close>, the output buffer and the
  globals. \<open>arr\<close> must hold \<open>sz*sz\<close> bytes. No operation of the model throws, so the
  two \<open>catch\<close> branches (which return \<open>-1\<close>) have no counterpart.
\<close>

definition solve_puzzle ::
  "globals \<Rightarrow> (nat \<Rightarrow> nat \<Rightarrow> int) \<Rightarrow> int \<Rightarrow> uint8 list \<Rightarrow> int \<Rightarrow> (nat \<Rightarrow> uint8) \<Rightarrow>
   fault + (int \<times> (nat \<Rightarrow> uint8)) \<times> globals" where
  "solve_puzzle G clk e0 arr sz moves_out =
     (if int (length arr) < sz * sz then Inl OutOfBounds
      else let start = PuzzleState_arr e0 arr sz
           in case validate_input start of
                Inl e \<Rightarrow> Inl e
              | Inr ok \<Rightarrow>
                  if \<not> ok then Inr ((-1, moves_out), G)
                  else if sz = 0 then Inl OutOfBounds
                  else if isSolved start then Inr ((0, moves_out), G)
                  else if sz = 4
                  then (case solve_4x4 G clk start moves_out of
                          Inl e \<Rightarrow> Inl e
                        | Inr ((r, out), G') \<Rightarrow> Inr ((if r > 0 then r else -1, out), G'))
                  else if sz = 5
                  then (case solve_5x5 G clk start moves_out of
                          Inl e \<Rightarrow> Inl e
                        | Inr ((r, out), G') \<Rightarrow> Inr ((if r > 0 then r else -1, out), G'))
                  else Inr ((-1, moves_out), G))"

section \<open>Properties of input validation\<close>

text \<open>The counting loop, when every index is in range and when one is not.\<close>

lemma count_loop_ok:
  "\<forall>i \<in> set js. unat (ts ! i) < length cnt \<Longrightarrow>
   count_loop ts js cnt =
     Inr (map (\<lambda>v. cnt ! v + int (length (filter (\<lambda>i. unat (ts ! i) = v) js))) [0..<length cnt])"
proof (induction js arbitrary: cnt)
  case Nil
  show ?case by (simp add: map_nth)
next
  case (Cons j js)
  let ?c = "cnt[unat (ts ! j) := cnt ! unat (ts ! j) + 1]"
  from Cons.prems have "\<forall>i \<in> set js. unat (ts ! i) < length ?c" by simp
  from Cons.IH [OF this] Cons.prems show ?case
    by (auto simp: Let_def nth_list_update)
qed

lemma count_loop_oob:
  "\<exists>i \<in> set js. length cnt \<le> unat (ts ! i) \<Longrightarrow> count_loop ts js cnt = Inl OutOfBounds"
proof (induction js arbitrary: cnt)
  case Nil
  then show ?case by simp
next
  case (Cons j js)
  show ?case
  proof (cases "unat (ts ! j) < length cnt")
    case True
    with Cons.prems have "\<exists>i \<in> set js. length (cnt[unat (ts ! j) := cnt ! unat (ts ! j) + 1]) \<le> unat (ts ! i)"
      by auto
    from Cons.IH [OF this] True show ?thesis by (simp add: Let_def)
  next
    case False
    then show ?thesis by (simp add: Let_def)
  qed
qed

lemma filter_index_count:
  "length (filter (\<lambda>i. f (ts ! i) = v) [0..<length ts]) = count_list (map f ts) v"
proof (induction ts rule: rev_induct)
  case Nil
  show ?case by simp
next
  case (snoc t ts)
  have "filter (\<lambda>i. f ((ts @ [t]) ! i) = v) [0..<length ts] = filter (\<lambda>i. f (ts ! i) = v) [0..<length ts]"
    by (rule filter_cong) (auto simp: nth_append)
  with snoc show ?case by simp
qed

text \<open>
  Claim C9. \<open>validate_input\<close> indexes \<open>cnt\<close> with each input byte and checks no range
  first. On a state whose vector has \<open>size*size\<close> cells: if every byte is below
  \<open>size*size\<close>, no access leaves \<open>cnt\<close> and the result is true exactly when each value
  \<open>0..size*size-1\<close> occurs once; if some byte is \<open>size*size\<close> or more, the access
  \<open>cnt[tiles[i]]\<close> is out of bounds.
\<close>

theorem validate_input_unchecked_index:
  assumes "length (tiles s) = nat (size' s * size' s)"
  shows "((\<forall>t \<in> set (tiles s). unat t < length (tiles s)) \<longrightarrow>
            validate_input s =
              Inr (\<forall>v < length (tiles s). count_list (map unat (tiles s)) v = 1)) \<and>
         ((\<exists>t \<in> set (tiles s). length (tiles s) \<le> unat t) \<longrightarrow>
            validate_input s = Inl OutOfBounds)"
proof (intro conjI impI)
  let ?n = "length (tiles s)"
  have n: "nat (size' s * size' s) = ?n" using assms by simp
  {
    assume "\<forall>t \<in> set (tiles s). unat t < ?n"
    then have "\<forall>i \<in> set [0..<?n]. unat (tiles s ! i) < length (replicate ?n (0::int))" by simp
    from count_loop_ok [OF this]
    show "validate_input s = Inr (\<forall>v < ?n. count_list (map unat (tiles s)) v = 1)"
      by (auto simp: validate_input_def n list_all_iff filter_index_count)
  }
  {
    assume "\<exists>t \<in> set (tiles s). ?n \<le> unat t"
    then have "\<exists>i \<in> set [0..<?n]. length (replicate ?n (0::int)) \<le> unat (tiles s ! i)"
      by (fastforce simp: in_set_conv_nth)
    from count_loop_oob [OF this] show "validate_input s = Inl OutOfBounds"
      by (simp add: validate_input_def n)
  }
qed

theorem validate_input_unchecked_index_witness:
  "validate_input \<lparr>tiles = [1, 2, 3, 0], size' = 2, empty' = 3\<rparr> = Inr True \<and>
   validate_input \<lparr>tiles = [1, 2, 2, 0], size' = 2, empty' = 3\<rparr> = Inr False \<and>
   validate_input \<lparr>tiles = [1, 2, 4, 0], size' = 2, empty' = 3\<rparr> = Inl OutOfBounds"
proof (intro conjI)
  let ?s = "\<lparr>tiles = [1, 2, 3, 0], size' = 2, empty' = 3\<rparr>"
  have "validate_input ?s = Inr (\<forall>v < length (tiles ?s). count_list (map unat (tiles ?s)) v = 1)"
    using validate_input_unchecked_index [of ?s] by simp
  moreover have "\<forall>v < length (tiles ?s). count_list (map unat (tiles ?s)) v = 1"
    by (simp add: All_less_Suc)
  ultimately show "validate_input ?s = Inr True" by simp
next
  let ?s = "\<lparr>tiles = [1, 2, 2, 0], size' = 2, empty' = 3\<rparr>"
  have "validate_input ?s = Inr (\<forall>v < length (tiles ?s). count_list (map unat (tiles ?s)) v = 1)"
    using validate_input_unchecked_index [of ?s] by simp
  moreover have "(3::nat) < length (tiles ?s)" "count_list (map unat (tiles ?s)) 3 \<noteq> 1"
    by simp_all
  then have "\<not> (\<forall>v < length (tiles ?s). count_list (map unat (tiles ?s)) v = 1)" by blast
  ultimately show "validate_input ?s = Inr False" by simp
next
  let ?s = "\<lparr>tiles = [1, 2, 4, 0], size' = 2, empty' = 3\<rparr>"
  show "validate_input ?s = Inl OutOfBounds"
    using validate_input_unchecked_index [of ?s] by simp
qed

section \<open>Properties of move application\<close>

text \<open>
  A well-formed board: the vector has \<open>size*size\<close> cells, no value occurs twice, and
  \<open>empty\<close> is the index of the 0.
\<close>

definition wf_board :: "PuzzleState \<Rightarrow> bool" where
  "wf_board s =
     (length (tiles s) = nat (size' s * size' s) \<and> distinct (tiles s) \<and>
      in_range (tiles s) (empty' s) \<and> tiles s ! nat (empty' s) = 0)"

text \<open>
  A move is legal from a board when the tile it names lies on a cell next to the
  blank, in one of the four directions the searches and \<open>shuffle_state\<close> try.
\<close>

definition legal_move :: "PuzzleState \<Rightarrow> uint8 \<Rightarrow> bool" where
  "legal_move s mv =
     list_ex (\<lambda>d. case neighbour (size' s) (empty' s) d of
                     None \<Rightarrow> False
                   | Some ni \<Rightarrow> tiles s ! nat ni = mv) [0..<4]"

fun legal_moves :: "PuzzleState \<Rightarrow> uint8 list \<Rightarrow> bool" where
  "legal_moves s [] = True"
| "legal_moves s (mv # ms) =
     (legal_move s mv \<and>
      (case apply_move s mv of Inl e \<Rightarrow> False | Inr s' \<Rightarrow> legal_moves s' ms))"

lemma last_index_fold:
  assumes "distinct ts" "j < length ts" "n \<le> length ts"
  shows "foldl (\<lambda>a i. if ts ! i = ts ! j then int i else a) a0 [0..<n] =
           (if j < n then int j else a0)"
  using assms(3)
proof (induction n)
  case 0
  show ?case by simp
next
  case (Suc n)
  then have "n < length ts" by simp
  with assms(1,2) have "(ts ! n = ts ! j) = (n = j)" by (simp add: nth_eq_iff_index_eq)
  with Suc show ?case by auto
qed

lemma find_tile_nth:
  "distinct ts \<Longrightarrow> j < length ts \<Longrightarrow> find_tile ts (length ts) (ts ! j) = int j"
  using last_index_fold [of ts j "length ts" "-1"] by (simp add: find_tile_def)

lemma find_empty_nth:
  "distinct ts \<Longrightarrow> j < length ts \<Longrightarrow> ts ! j = 0 \<Longrightarrow> find_empty ts (length ts) e0 = int j"
  using last_index_fold [of ts j "length ts" e0] by (simp add: find_empty_def)

lemma neighbour_range:
  assumes "neighbour sz e d = Some ni"
  shows "0 \<le> ni \<and> ni < sz * sz"
proof -
  obtain nr nc where n: "ni = nr * sz + nc" "0 \<le> nr" "nr < sz" "0 \<le> nc" "nc < sz"
    using assms by (auto simp: neighbour_def Let_def split: if_splits)
  from n have "nr * sz \<le> (sz - 1) * sz" by (intro mult_right_mono) auto
  with n have "nr * sz + nc < sz * sz" by (simp add: algebra_simps)
  moreover from n have "0 \<le> nr * sz + nc" by simp
  ultimately show ?thesis using n(1) by simp
qed

lemma swap_at_props:
  assumes "i < length xs" "j < length xs"
  shows "length (swap_at xs i j) = length xs"
    and "distinct xs \<Longrightarrow> distinct (swap_at xs i j)"
    and "swap_at xs i j ! i = xs ! j"
    and "swap_at xs i j ! j = xs ! i"
    and "k \<noteq> i \<Longrightarrow> k \<noteq> j \<Longrightarrow> swap_at xs i j ! k = xs ! k"
    and "swap_at (swap_at xs i j) j i = xs"
    and "set (swap_at xs i j) = set xs"
proof -
  show "length (swap_at xs i j) = length xs" by (simp add: swap_at_def)
  show "swap_at xs i j ! i = xs ! j" using assms by (simp add: swap_at_def nth_list_update)
  show "swap_at xs i j ! j = xs ! i" using assms by (simp add: swap_at_def nth_list_update)
  show "k \<noteq> i \<Longrightarrow> k \<noteq> j \<Longrightarrow> swap_at xs i j ! k = xs ! k"
    by (simp add: swap_at_def nth_list_update)
  have m: "mset (swap_at xs i j) = mset xs"
    using assms by (simp add: swap_at_def mset_swap)
  show "set (swap_at xs i j) = set xs" using m by (rule mset_eq_setD)
  show "distinct xs \<Longrightarrow> distinct (swap_at xs i j)" using m by (metis mset_eq_imp_distinct_iff)
  show "swap_at (swap_at xs i j) j i = xs"
    using assms by (auto simp: swap_at_def list_eq_iff_nth_eq nth_list_update)
qed

text \<open>On a well-formed board a move naming a tile of the board swaps it with the blank.\<close>

lemma apply_move_wf:
  assumes "wf_board s" "j < length (tiles s)"
  shows "apply_move s (tiles s ! j) = Inr (slide s (int j))"
    and "wf_board (slide s (int j))"
    and "apply_move (slide s (int j)) (tiles s ! j) = Inr s"
proof -
  let ?e = "nat (empty' s)"
  from assms have e: "?e < length (tiles s)" "0 \<le> empty' s" "tiles s ! ?e = 0"
    and n: "nat (size' s * size' s) = length (tiles s)" and d: "distinct (tiles s)"
    by (auto simp: wf_board_def in_range_def)
  from assms d show a: "apply_move s (tiles s ! j) = Inr (slide s (int j))"
    by (simp add: apply_move_def n find_tile_nth slide_def wf_board_def in_range_def)
  let ?t = "swap_at (tiles s) ?e j"
  from swap_at_props [OF e(1) assms(2)] d
  have t: "length ?t = length (tiles s)" "distinct ?t" "?t ! ?e = tiles s ! j" "?t ! j = 0"
    "swap_at ?t j ?e = tiles s"
    using e(3) by simp_all
  from t assms(2) show w: "wf_board (slide s (int j))"
    by (simp add: wf_board_def slide_def in_range_def n)
  have "find_tile ?t (length ?t) (?t ! ?e) = int ?e"
    using t e by (intro find_tile_nth) simp_all
  then have f: "find_tile ?t (length (tiles s)) (tiles s ! j) = empty' s"
    using t e by simp
  have "apply_move (slide s (int j)) (tiles s ! j) =
      Inr (s\<lparr>tiles := swap_at ?t j ?e, empty' := empty' s\<rparr>)"
    using e assms(2) by (simp add: apply_move_def slide_def n in_range_def f t(1) Let_def nat_less_iff)
  with t(5) show "apply_move (slide s (int j)) (tiles s ! j) = Inr s" by simp
qed

lemma apply_moves_append:
  "apply_moves s (xs @ ys) =
     (case apply_moves s xs of Inl e \<Rightarrow> Inl e | Inr s' \<Rightarrow> apply_moves s' ys)"
  by (induction xs arbitrary: s) (auto split: sum.splits)

lemma legal_move_index:
  assumes "wf_board s" "legal_move s mv"
  shows "\<exists>j < length (tiles s). tiles s ! j = mv"
proof -
  from assms(2) obtain d ni where "neighbour (size' s) (empty' s) d = Some ni" "tiles s ! nat ni = mv"
    by (auto simp: legal_move_def list_ex_iff split: option.splits)
  with neighbour_range [OF this(1)] assms(1) show ?thesis
    by (intro exI [of _ "nat ni"]) (auto simp: wf_board_def nat_less_iff)
qed

text \<open>
  Claim C7. For every well-formed board \<open>B\<close> and every sequence \<open>M\<close> of moves that are
  legal one after the other from \<open>B\<close>, \<open>apply_moves\<close> produces a board \<open>B'\<close>, and
  applying the tiles of \<open>M\<close> in reverse order to \<open>B'\<close> gives back \<open>B\<close> exactly.
\<close>

theorem apply_moves_round_trip:
  assumes "wf_board B" "legal_moves B M"
  shows "\<exists>B'. apply_moves B M = Inr B' \<and> apply_moves B' (rev M) = Inr B"
  using assms
proof (induction M arbitrary: B)
  case Nil
  show ?case by simp
next
  case (Cons mv ms)
  from Cons.prems have "legal_move B mv" by simp
  from legal_move_index [OF Cons.prems(1) this]
  obtain j where j: "j < length (tiles B)" "tiles B ! j = mv" by blast
  from apply_move_wf [OF Cons.prems(1) j(1)] j(2)
  have a: "apply_move B mv = Inr (slide B (int j))" and w: "wf_board (slide B (int j))"
    and b: "apply_move (slide B (int j)) mv = Inr B" by simp_all
  from Cons.prems a have "legal_moves (slide B (int j)) ms" by simp
  from Cons.IH [OF w this] obtain B' where
    B': "apply_moves (slide B (int j)) ms = Inr B'" "apply_moves B' (rev ms) = Inr (slide B (int j))"
    by blast
  with a b show ?case by (simp add: apply_moves_append)
qed

theorem apply_moves_round_trip_witness:
  "apply_moves \<lparr>tiles = [1, 2, 3, 4, 5, 6, 7, 8, 9, 10, 11, 12, 13, 14, 15, 0], size' = 4, empty' = 15\<rparr>
       [15, 14] =
     Inr \<lparr>tiles = [1, 2, 3, 4, 5, 6, 7, 8, 9, 10, 11, 12, 13, 0, 14, 15], size' = 4, empty' = 13\<rparr> \<and>
   apply_moves \<lparr>tiles = [1, 2, 3, 4, 5, 6, 7, 8, 9, 10, 11, 12, 13, 0, 14, 15], size' = 4, empty' = 13\<rparr>
       [14, 15] =
     Inr \<lparr>tiles = [1, 2, 3, 4, 5, 6, 7, 8, 9, 10, 11, 12, 13, 14, 15, 0], size' = 4, empty' = 15\<rparr>"
proof -
  let ?B = "\<lparr>tiles = [1, 2, 3, 4, 5, 6, 7, 8, 9, 10, 11, 12, 13, 14, 15, 0 :: uint8], size' = 4, empty' = 15\<rparr>"
  have w: "wf_board ?B" by (simp add: wf_board_def in_range_def)
  have l: "legal_moves ?B [15, 14]" by code_simp
  have a: "apply_moves ?B [15, 14] =
     Inr \<lparr>tiles = [1, 2, 3, 4, 5, 6, 7, 8, 9, 10, 11, 12, 13, 0, 14, 15], size' = 4, empty' = 13\<rparr>"
    by code_simp
  from apply_moves_round_trip [OF w l] a show ?thesis by simp
qed

text \<open>
  Claim C10. \<open>validate_solution\<close> replays a move by looking the tile up anywhere on
  the board and swapping it with the blank; it never checks that the tile is next to
  the blank. So there is a board and a move list whose move is illegal (tile 1 sits in
  the corner opposite the blank) and for which \<open>validate_solution\<close> returns 1.
\<close>

theorem validate_solution_accepts_illegal_move:
  "\<exists>arr moves.
     wf_board (PuzzleState_arr e0 arr 4) \<and>
     \<not> legal_moves (PuzzleState_arr e0 arr 4) moves \<and>
     validate_solution e0 arr 4 moves (int (length moves)) = Inr 1"
proof (intro exI conjI)
  let ?arr = "[0, 2, 3, 4, 5, 6, 7, 8, 9, 10, 11, 12, 13, 14, 15, 1 :: uint8]"
  have p: "PuzzleState_arr e0 ?arr 4 = \<lparr>tiles = ?arr, size' = 4, empty' = 0\<rparr>"
    by (simp add: PuzzleState_arr_def find_empty_def upt_rec)
  show "wf_board (PuzzleState_arr e0 ?arr 4)"
    unfolding p by (simp add: wf_board_def in_range_def)
  show "\<not> legal_moves (PuzzleState_arr e0 ?arr 4) [1]"
    unfolding p by code_simp
  have "apply_moves \<lparr>tiles = ?arr, size' = 4, empty' = 0\<rparr> [1] =
      Inr \<lparr>tiles = [1, 2, 3, 4, 5, 6, 7, 8, 9, 10, 11, 12, 13, 14, 15, 0], size' = 4, empty' = 15\<rparr>"
    by code_simp
  moreover have "isSolved \<lparr>tiles = [1, 2, 3, 4, 5, 6, 7, 8, 9, 10, 11, 12, 13, 14, 15, 0], size' = 4, empty' = 15\<rparr>"
    by code_simp
  ultimately show "validate_solution e0 ?arr 4 [1] (int (length [1 :: uint8])) = Inr 1"
    by (simp add: validate_solution_def p)
qed

theorem validate_solution_accepts_illegal_move_witness:
  "\<not> legal_move \<lparr>tiles = [0, 2, 3, 4, 5, 6, 7, 8, 9, 10, 11, 12, 13, 14, 15, 1], size' = 4, empty' = 0\<rparr> 1 \<and>
   validate_solution 0 [0, 2, 3, 4, 5, 6, 7, 8, 9, 10, 11, 12, 13, 14, 15, 1] 4 [1] 1 = Inr 1 \<and>
   (\<exists>arr moves. \<not> legal_moves (PuzzleState_arr 0 arr 4) moves \<and>
      validate_solution 0 arr 4 moves (int (length moves)) = Inr 1)"
proof (intro conjI)
  show "\<not> legal_move \<lparr>tiles = [0, 2, 3, 4, 5, 6, 7, 8, 9, 10, 11, 12, 13, 14, 15, 1], size' = 4, empty' = 0\<rparr> 1"
    by code_simp
  show "validate_solution 0 [0, 2, 3, 4, 5, 6, 7, 8, 9, 10, 11, 12, 13, 14, 15, 1] 4 [1] 1 = Inr 1"
    by code_simp
  show "\<exists>arr moves. \<not> legal_moves (PuzzleState_arr 0 arr 4) moves \<and>
      validate_solution 0 arr 4 moves (int (length moves)) = Inr 1"
    using validate_solution_accepts_illegal_move [of 0] by blast
qed

lemma validate_input_total:
  assumes "length (tiles s) = nat (size' s * size' s)"
    and "\<forall>t \<in> set (tiles s). unat t < length (tiles s)"
  shows "\<exists>ok. validate_input s = Inr ok"
proof -
  let ?n = "length (tiles s)"
  have n: "nat (size' s * size' s) = ?n" using assms by simp
  from assms(2) have "\<forall>i \<in> set [0..<?n]. unat (tiles s ! i) < length (replicate ?n (0::int))" by simp
  from count_loop_ok [OF this] show ?thesis by (simp add: validate_input_def n Let_def)
qed

section \<open>Properties of the entry point\<close>

text \<open>
  Claim C8. When the input board passes validation and is already solved,
  \<open>solve_puzzle\<close> returns 0 and writes nothing: the output buffer (and the pattern
  database) is returned as it was passed.
\<close>

theorem solve_puzzle_solved_no_write:
  assumes "sz * sz \<le> int (length arr)" and "sz \<noteq> 0"
    and "validate_input (PuzzleState_arr e0 arr sz) = Inr True"
    and "isSolved (PuzzleState_arr e0 arr sz)"
  shows "solve_puzzle G clk e0 arr sz moves_out = Inr ((0, moves_out), G)"
  using assms by (simp add: solve_puzzle_def Let_def)

theorem solve_puzzle_solved_no_write_witness:
  "solve_puzzle \<lparr>pdb_4x4_stage1 = Map.empty, pdb_5x5_stage1 = Map.empty, pdb_5x5_stage2 = Map.empty\<rparr>
     (\<lambda>i k. 0) 0 [1, 2, 3, 4, 5, 6, 7, 8, 9, 10, 11, 12, 13, 14, 15, 0] 4 (\<lambda>i. 0) =
   Inr ((0, \<lambda>i. 0),
        \<lparr>pdb_4x4_stage1 = Map.empty, pdb_5x5_stage1 = Map.empty, pdb_5x5_stage2 = Map.empty\<rparr>)"
proof -
  let ?arr = "[1, 2, 3, 4, 5, 6, 7, 8, 9, 10, 11, 12, 13, 14, 15, 0 :: uint8]"
  have v: "validate_input (PuzzleState_arr 0 ?arr 4) = Inr True" by code_simp
  have s: "isSolved (PuzzleState_arr 0 ?arr 4)" by code_simp
  show ?thesis
    by (rule solve_puzzle_solved_no_write [OF _ _ v s]) simp_all
qed

text \<open>
  Claim C5, as stated, fails: the solved test comes before the dispatch on the size, so
  a valid, already solved board of size 3 returns 0, not \<open>-1\<close>.
\<close>

theorem solve_puzzle_size3_counterexample:
  "solve_puzzle \<lparr>pdb_4x4_stage1 = Map.empty, pdb_5x5_stage1 = Map.empty, pdb_5x5_stage2 = Map.empty\<rparr>
     (\<lambda>i k. 0) 0 [1, 2, 3, 4, 5, 6, 7, 8, 0] 3 (\<lambda>i. 0) =
   Inr ((0, \<lambda>i. 0),
        \<lparr>pdb_4x4_stage1 = Map.empty, pdb_5x5_stage1 = Map.empty, pdb_5x5_stage2 = Map.empty\<rparr>)"
proof -
  let ?arr = "[1, 2, 3, 4, 5, 6, 7, 8, 0 :: uint8]"
  have v: "validate_input (PuzzleState_arr 0 ?arr 3) = Inr True" by code_simp
  have s: "isSolved (PuzzleState_arr 0 ?arr 3)" by code_simp
  show ?thesis by (simp add: solve_puzzle_def v s)
qed

text \<open>
  Claim C5, amended. For every input whose size is not 4 or 5 (and not 0), with
  \<open>size*size\<close> bytes all below \<open>size*size\<close>, \<open>solve_puzzle\<close> returns \<open>-1\<close> and writes
  nothing, unless the board passes validation and is already solved: then it returns 0.
\<close>

theorem solve_puzzle_unsupported_size:
  assumes "sz \<noteq> 4" "sz \<noteq> 5" "sz \<noteq> 0" "sz * sz \<le> int (length arr)"
    and "\<forall>t \<in> set (take (nat (sz * sz)) arr). unat t < nat (sz * sz)"
  shows "solve_puzzle G clk e0 arr sz moves_out =
           Inr ((if validate_input (PuzzleState_arr e0 arr sz) = Inr True \<and>
                    isSolved (PuzzleState_arr e0 arr sz) then 0 else -1, moves_out), G)"
proof -
  let ?s = "PuzzleState_arr e0 arr sz"
  have l: "length (tiles ?s) = nat (size' ?s * size' ?s)"
    using assms(4) by (simp add: PuzzleState_arr_def Let_def)
  have "\<forall>t \<in> set (tiles ?s). unat t < length (tiles ?s)"
    using assms(4,5) by (simp add: PuzzleState_arr_def Let_def)
  with validate_input_total [OF l] obtain ok where "validate_input ?s = Inr ok" by blast
  with assms show ?thesis by (simp add: solve_puzzle_def Let_def)
qed

theorem solve_puzzle_unsupported_size_witness:
  "solve_puzzle \<lparr>pdb_4x4_stage1 = Map.empty, pdb_5x5_stage1 = Map.empty, pdb_5x5_stage2 = Map.empty\<rparr>
     (\<lambda>i k. 0) 0 [1, 2, 3, 4, 5, 6, 0, 7, 8] 3 (\<lambda>i. 0) =
   Inr ((-1, \<lambda>i. 0),
        \<lparr>pdb_4x4_stage1 = Map.empty, pdb_5x5_stage1 = Map.empty, pdb_5x5_stage2 = Map.empty\<rparr>)"
proof -
  let ?arr = "[1, 2, 3, 4, 5, 6, 0, 7, 8 :: uint8]"
  have s: "\<not> isSolved (PuzzleState_arr 0 ?arr 3)" by code_simp
  have b: "\<forall>t \<in> set (take (nat (3 * 3)) ?arr). unat t < nat (3 * 3)" by simp
  show ?thesis
    using solve_puzzle_unsupported_size [where sz = 3 and arr = ?arr and ?e0.0 = 0, OF _ _ _ _ b] s
    by simp
qed

section \<open>Properties of the pattern database\<close>

text \<open>The start layout of \<open>build_pdb\<close>, cell by cell.\<close>

lemma prefix_fill_length [simp]: "length (foldl (\<lambda>t i. t[i := f i]) xs js) = length xs"
  by (induction js arbitrary: xs) auto

lemma prefix_fill_nth:
  "m \<le> length xs \<Longrightarrow> k < length xs \<Longrightarrow>
   foldl (\<lambda>t i. t[i := f i]) xs [0..<m] ! k = (if k < m then f k else xs ! k)"
  by (induction m) (auto simp: nth_list_update less_Suc_eq)

lemma sq_pos: "sz \<noteq> 0 \<Longrightarrow> 0 < nat (sz * sz)" for sz :: int
  by (simp add: zero_less_mult_iff) linarith

lemma pdb_start_length [simp]: "length (pdb_start sz ntiles) = nat (sz * sz)"
  by (simp add: pdb_start_def)

lemma pdb_start_nth:
  assumes "ntiles \<le> sz * sz" "k < nat (sz * sz)"
  shows "pdb_start sz ntiles ! k =
           (if k < nat ntiles \<and> k \<noteq> nat (sz * sz) - 1 then of_nat (k + 1) else 0)"
proof -
  from assms have "nat ntiles \<le> length (replicate (nat (sz * sz)) (0::uint8))" by simp
  from prefix_fill_nth [OF this, of k "\<lambda>i. of_nat (i + 1)"] assms(2)
  show ?thesis by (simp add: pdb_start_def nth_list_update)
qed

lemma find_empty_last:
  assumes "0 < n" "ts ! (n - 1) = 0"
  shows "find_empty ts n e0 = int n - 1"
proof -
  from assms(1) have "[0..<n] = [0..<n - 1] @ [n - 1]"
    by (metis Suc_pred' upt_Suc_append zero_le)
  with assms show ?thesis by (simp add: find_empty_def of_nat_diff)
qed

lemma swap_at_same: "i < length xs \<Longrightarrow> j < length xs \<Longrightarrow> xs ! i = xs ! j \<Longrightarrow> swap_at xs i j = xs"
  by (simp add: swap_at_def list_eq_iff_nth_eq nth_list_update)

text \<open>
  From the start layout no direction queues a child: the cell next to the tracked blank
  holds either another 0 (the child is the parent, already seen) or one of the tiles
  \<open>1..ntiles\<close> (the child moves it off its goal cell).
\<close>

lemma pdb_child_start:
  assumes "ntiles \<le> sz * sz" "sz \<noteq> 0"
  shows "pdb_child sz ntiles (pdb_start sz ntiles) depth (sz * sz - 1)
           ([], {pdb_start sz ntiles}) d = ([], {pdb_start sz ntiles})"
proof (cases "neighbour sz (sz * sz - 1) d")
  case None
  then show ?thesis by (simp add: pdb_child_def)
next
  case (Some ni)
  let ?n = "nat (sz * sz)" and ?s = "pdb_start sz ntiles"
  from assms(2) have n: "0 < ?n" by (rule sq_pos)
  from neighbour_range [OF Some] have ni: "nat ni < ?n" "0 \<le> ni" by simp_all
  have e: "nat (sz * sz - 1) = ?n - 1" by simp
  have l: "?s ! (?n - 1) = 0" using pdb_start_nth [OF assms(1), of "?n - 1"] n by simp
  show ?thesis
  proof (cases "?s ! nat ni = 0")
    case True
    with l ni n have "swap_at ?s (?n - 1) (nat ni) = ?s" by (intro swap_at_same) simp_all
    with Some show ?thesis by (simp add: pdb_child_def e Let_def)
  next
    case False
    with pdb_start_nth [OF assms(1) ni(1)] have k: "nat ni < nat ntiles" "nat ni \<noteq> ?n - 1"
      by (auto split: if_splits)
    have "swap_at ?s (?n - 1) (nat ni) ! nat ni = 0"
      using swap_at_props(4) [of "?n - 1" ?s "nat ni"] ni n l by simp
    then have "uint (swap_at ?s (?n - 1) (nat ni) ! nat ni) \<noteq> int (nat ni) + 1" by simp
    moreover have "nat ni \<in> set [0..<nat ntiles]" using k(1) by simp
    ultimately have "\<not> list_all (\<lambda>i. uint (swap_at ?s (?n - 1) (nat ni) ! i) = int i + 1) [0..<nat ntiles]"
      unfolding list_all_iff by blast
    with Some show ?thesis by (simp add: pdb_child_def e Let_def)
  qed
qed

lemma build_pdb_single:
  assumes "ntiles \<le> sz * sz" "sz \<noteq> 0"
  shows "build_pdb sz ntiles p max_depth = Inr (p(pdb_start sz ntiles \<mapsto> 0))"
proof -
  let ?n = "nat (sz * sz)" and ?s = "pdb_start sz ntiles"
  from assms(2) have n: "0 < ?n" by (rule sq_pos)
  have l: "?s ! (?n - 1) = 0" using pdb_start_nth [OF assms(1), of "?n - 1"] n by simp
  have e: "find_empty ?s ?n (-1) = sz * sz - 1"
    using find_empty_last [OF n l] by simp
  have "foldl (pdb_child sz ntiles ?s 0 (sz * sz - 1)) ([], {?s}) ds = ([], {?s})" for ds
    by (induction ds) (simp_all add: pdb_child_start [OF assms])
  then have "pdb_loop sz ntiles max_depth [(?s, 0)] {?s} p = p(?s \<mapsto> 0)"
    by (simp add: e Let_def)
  with assms show ?thesis by (simp add: build_pdb_def Let_def)
qed

text \<open>The solved board that \<open>bibfs\<close> builds, cell by cell.\<close>

lemma goal_state_nth:
  assumes "k < nat (sz * sz)"
  shows "tiles (goal_state sz) ! k = (if k < nat (sz * sz) - 1 then of_nat (k + 1) else 0)"
proof (cases "k < nat (sz * sz) - 1")
  case True
  have "nat (sz * sz) - 1 \<le> length (replicate (nat (sz * sz)) (0::uint8))" by simp
  from prefix_fill_nth [OF this, of k "\<lambda>i. of_nat (i + 1)"] assms True
  show ?thesis by (simp add: goal_state_def PuzzleState_sz_def Let_def nth_list_update)
next
  case False
  with assms have "k = nat (sz * sz) - 1" by simp
  with assms False show ?thesis by (simp add: goal_state_def PuzzleState_sz_def Let_def)
qed

lemma goal_state_length [simp]: "length (tiles (goal_state sz)) = nat (sz * sz)"
  by (simp add: goal_state_def PuzzleState_sz_def Let_def)

text \<open>
  The start layout of \<open>build_pdb\<close> is the solved board only when the prefix leaves out
  at most the blank.
\<close>

lemma pdb_start_solved_iff:
  assumes "0 \<le> ntiles" "ntiles \<le> sz * sz" "sz \<noteq> 0" "sz * sz \<le> 256"
  shows "pdb_start sz ntiles = tiles (goal_state sz) \<longleftrightarrow> sz * sz - 1 \<le> ntiles"
proof
  let ?n = "nat (sz * sz)"
  from assms(3) have n: "0 < ?n" by (rule sq_pos)
  {
    assume e: "pdb_start sz ntiles = tiles (goal_state sz)"
    show "sz * sz - 1 \<le> ntiles"
    proof (rule ccontr)
      assume "\<not> sz * sz - 1 \<le> ntiles"
      with assms(1) have k: "nat ntiles < ?n - 1" "nat ntiles < ?n" by linarith+
      from pdb_start_nth [OF assms(2) k(2)] have "pdb_start sz ntiles ! nat ntiles = 0" by simp
      moreover from goal_state_nth [OF k(2)] k(1)
      have "tiles (goal_state sz) ! nat ntiles = of_nat (nat ntiles + 1)" by simp
      moreover have "(of_nat (nat ntiles + 1) :: uint8) \<noteq> 0"
      proof -
        from k(1) assms(4) have "nat ntiles + 1 < 256" by linarith
        then have "\<not> 2 ^ LENGTH(8) dvd nat ntiles + 1" by (intro nat_dvd_not_less) simp_all
        then show ?thesis unfolding word_of_nat_eq_0_iff .
      qed
      ultimately show False using e by simp
    qed
  }
  {
    assume "sz * sz - 1 \<le> ntiles"
    then have m: "?n - 1 \<le> nat ntiles" by linarith
    show "pdb_start sz ntiles = tiles (goal_state sz)"
    proof (rule nth_equalityI)
      show "length (pdb_start sz ntiles) = length (tiles (goal_state sz))" by simp
    next
      fix k assume "k < length (pdb_start sz ntiles)"
      then have k: "k < ?n" by simp
      from pdb_start_nth [OF assms(2) k] goal_state_nth [OF k] m k
      show "pdb_start sz ntiles ! k = tiles (goal_state sz) ! k" by auto
    qed
  }
qed

text \<open>
  Claim C3. The claim says that the table maps the solved board to depth 0 and that
  every key is reached from the solved board. The vector \<open>build_pdb\<close> starts from is
  named \<open>solved\<close>, but it holds the tiles \<open>1..ntiles\<close> only and 0 in every other cell.
  No direction gives a child from it (a neighbour of the tracked blank holds another 0,
  or a prefix tile), so whatever \<open>max_depth\<close> is the table has that one key, at depth
  0, and the solved board is a key only when the prefix is the whole board (\<open>ntiles\<close>
  at least \<open>sz*sz-1\<close>). For the prefixes the solver passes (6 of 15 tiles, 12 of 24)
  the solved board is not in the table.
\<close>

theorem build_pdb_keys:
  assumes "0 \<le> ntiles" "ntiles \<le> sz * sz" "sz \<noteq> 0" "sz * sz \<le> 256"
  shows "\<exists>p. build_pdb sz ntiles Map.empty max_depth = Inr p \<and>
             dom p = {pdb_start sz ntiles} \<and> p (pdb_start sz ntiles) = Some 0 \<and>
             (tiles (goal_state sz) \<in> dom p \<longleftrightarrow> sz * sz - 1 \<le> ntiles)"
  using pdb_start_solved_iff [OF assms] by (auto simp: build_pdb_single [OF assms(2,3)])

theorem build_pdb_keys_witness:
  "(\<exists>p. build_pdb 4 6 Map.empty 14 = Inr p \<and>
        dom p = {[1, 2, 3, 4, 5, 6, 0, 0, 0, 0, 0, 0, 0, 0, 0, 0]} \<and>
        p [1, 2, 3, 4, 5, 6, 7, 8, 9, 10, 11, 12, 13, 14, 15, 0] = None) \<and>
   isSolved \<lparr>tiles = [1, 2, 3, 4, 5, 6, 7, 8, 9, 10, 11, 12, 13, 14, 15, 0], size' = 4, empty' = 15\<rparr>"
proof -
  have s: "pdb_start 4 6 = [1, 2, 3, 4, 5, 6, 0, 0, 0, 0, 0, 0, 0, 0, 0, 0]" by code_simp
  have t: "tiles (goal_state 4) = [1, 2, 3, 4, 5, 6, 7, 8, 9, 10, 11, 12, 13, 14, 15, 0]"
    by code_simp
  have i: "isSolved \<lparr>tiles = [1, 2, 3, 4, 5, 6, 7, 8, 9, 10, 11, 12, 13, 14, 15, 0], size' = 4, empty' = 15\<rparr>"
    by code_simp
  from build_pdb_keys [of 6 4 14] obtain p where
    p: "build_pdb 4 6 Map.empty 14 = Inr p" "dom p = {pdb_start 4 6}"
    "tiles (goal_state 4) \<in> dom p \<longleftrightarrow> (4::int) * 4 - 1 \<le> 6" by auto
  from p(3) have "tiles (goal_state 4) \<notin> dom p" by simp
  then have "p (tiles (goal_state 4)) = None" by (simp add: domIff)
  with p(1,2) i show ?thesis unfolding s t by blast
qed

section \<open>Properties of the searches\<close>

text \<open>
  A move list that is legal move after move and never slides the blank onto a cell of
  \<open>L\<close>.
\<close>

fun locked_path :: "int set \<Rightarrow> PuzzleState \<Rightarrow> uint8 list \<Rightarrow> bool" where
  "locked_path L s [] = True"
| "locked_path L s (mv # ms) =
     (legal_move s mv \<and>
      (case apply_move s mv of
         Inl e \<Rightarrow> False
       | Inr s' \<Rightarrow> empty' s' \<notin> L \<and> locked_path L s' ms))"

text \<open>The goal test of \<open>dfs\<close>.\<close>

definition goal_test :: "ida_ctx \<Rightarrow> PuzzleState \<Rightarrow> bool" where
  "goal_test C state =
     ((c_stage C = 2 \<and> isSolved state) \<or> (c_stage C = 1 \<and> heuristic C state = 0))"

lemma goal_test_threshold [simp]: "goal_test (C\<lparr>c_threshold := r\<rparr>) state = goal_test C state"
  by (simp add: goal_test_def)

lemma locked_path_legal: "locked_path L s ms \<Longrightarrow> legal_moves s ms"
  by (induction ms arbitrary: s) (auto split: sum.splits)

lemma locked_path_snoc:
  assumes "locked_path L s ms" "apply_moves s ms = Inr s1"
    and "legal_move s1 mv" "apply_move s1 mv = Inr s2" "empty' s2 \<notin> L"
  shows "locked_path L s (ms @ [mv])"
  using assms by (induction ms arbitrary: s) (auto split: sum.splits)

text \<open>The child state of a search step, and the move recorded for it.\<close>

lemma slide_step:
  assumes "wf_board s" "neighbour (size' s) (empty' s) d = Some ni" "d < 4"
  shows "wf_board (slide s ni)" and "size' (slide s ni) = size' s"
    and "empty' (slide s ni) = ni"
    and "apply_move s (tiles (slide s ni) ! nat (empty' s)) = Inr (slide s ni)"
    and "legal_move s (tiles (slide s ni) ! nat (empty' s))"
    and "set (tiles (slide s ni)) = set (tiles s)"
    and "length (tiles (slide s ni)) = length (tiles s)"
proof -
  from neighbour_range [OF assms(2)] assms(1)
  have ni: "nat ni < length (tiles s)" "int (nat ni) = ni" "0 \<le> ni"
    by (auto simp: wf_board_def nat_less_iff)
  from assms(1) have e: "nat (empty' s) < length (tiles s)"
    by (auto simp: wf_board_def in_range_def nat_less_iff)
  have t: "tiles (slide s ni) ! nat (empty' s) = tiles s ! nat ni"
    using swap_at_props(3) [OF e ni(1)] by (simp add: slide_def)
  from apply_move_wf(1,2) [OF assms(1) ni(1)] ni(2) t
  show "wf_board (slide s ni)" "apply_move s (tiles (slide s ni) ! nat (empty' s)) = Inr (slide s ni)"
    by simp_all
  show "size' (slide s ni) = size' s" "empty' (slide s ni) = ni" by (simp_all add: slide_def)
  from assms(2,3) t show "legal_move s (tiles (slide s ni) ! nat (empty' s))"
    by (auto simp: legal_move_def list_ex_iff intro!: bexI [of _ d])
  show "set (tiles (slide s ni)) = set (tiles s)" "length (tiles (slide s ni)) = length (tiles s)"
    using swap_at_props(1,7) [OF e ni(1)] by (simp_all add: slide_def)
qed

lemma dfs_child_step:
  assumes "dfs_child C s p T d = Some nxt" "wf_board s" "size' s = c_sz C" "d < 4"
  shows "wf_board nxt" and "size' nxt = c_sz C" and "empty' nxt \<notin> c_locked C"
    and "apply_move s (tiles nxt ! nat (empty' s)) = Inr nxt"
    and "legal_move s (tiles nxt ! nat (empty' s))"
proof -
  from assms(1,3) obtain ni where n: "neighbour (size' s) (empty' s) d = Some ni"
    "ni \<notin> c_locked C" "nxt = slide s ni"
    by (auto simp: dfs_child_def Let_def split: option.splits if_splits)
  from slide_step [OF assms(2) n(1) assms(4)] n(2,3) assms(3)
  show "wf_board nxt" "size' nxt = c_sz C" "empty' nxt \<notin> c_locked C"
    "apply_move s (tiles nxt ! nat (empty' s)) = Inr nxt"
    "legal_move s (tiles nxt ! nat (empty' s))"
    by simp_all
qed

text \<open>
  The path invariant of \<open>dfs\<close>: a call that sets \<open>found\<close> has appended to \<open>path\<close> the
  moves that lead from its state to a state passing the goal test, none of them onto a
  locked cell; a call that does not leaves \<open>path\<close> as it was.
\<close>

definition reaches_goal :: "ida_ctx \<Rightarrow> PuzzleState \<Rightarrow> uint8 list \<Rightarrow> bool" where
  "reaches_goal C s ms =
     (locked_path (c_locked C) s ms \<and>
      (\<exists>s'. apply_moves s ms = Inr s' \<and> wf_board s' \<and> size' s' = c_sz C \<and> goal_test C s'))"

lemma reaches_goal_threshold [simp]:
  "reaches_goal (C\<lparr>c_threshold := r\<rparr>) s ms = reaches_goal C s ms"
  by (simp add: reaches_goal_def)

lemma reaches_goal_Cons:
  assumes "reaches_goal C nxt ms" "apply_move s mv = Inr nxt" "legal_move s mv"
    "empty' nxt \<notin> c_locked C"
  shows "reaches_goal C s (mv # ms)"
  using assms by (auto simp: reaches_goal_def)

lemma dfs_path:
  "dfs C state g p V = (r, V') \<Longrightarrow> wf_board state \<Longrightarrow> size' state = c_sz C \<Longrightarrow> \<not> v_found V \<Longrightarrow>
     (if v_found V' then \<exists>ms. v_path V' = v_path V @ ms \<and> reaches_goal C state ms
      else v_path V' = v_path V)"
  "dfs_dirs C state g p d mt V = (r, V') \<Longrightarrow> wf_board state \<Longrightarrow> size' state = c_sz C \<Longrightarrow>
     \<not> v_found V \<Longrightarrow>
     (if v_found V' then \<exists>ms. v_path V' = v_path V @ ms \<and> reaches_goal C state ms
      else v_path V' = v_path V)"
proof (induction C state g p V and C state g p d mt V arbitrary: r V' and r V'
    rule: dfs_dfs_dirs.induct)
  case (1 C state g prev_empty V)
  let ?V1 = "V\<lparr>v_nodes := v_nodes V + 1\<rparr>"
  show ?case
  proof (cases "c_node_limit C < v_nodes ?V1")
    case True
    with "1.prems" show ?thesis by (auto simp: dfs.simps [of C state g prev_empty V] Let_def)
  next
    case nl: False
    show ?thesis
    proof (cases "c_threshold C < g + heuristic C state")
      case True
      with nl "1.prems" show ?thesis by (auto simp: dfs.simps [of C state g prev_empty V] Let_def)
    next
      case th: False
      show ?thesis
      proof (cases "goal_test C state")
        case True
        with nl th "1.prems" have "V' = ?V1\<lparr>v_found := True\<rparr>"
          by (auto simp: dfs.simps [of C state g prev_empty V] Let_def goal_test_def)
        moreover from True "1.prems" have "reaches_goal C state []"
          by (simp add: reaches_goal_def)
        ultimately show ?thesis by simp
      next
        case False
        with nl th "1.prems"
        have "dfs_dirs C state g prev_empty 0 INT_MAX (?V1\<lparr>v_TT := insert (tiles state) (v_TT ?V1)\<rparr>)
            = (r, V')"
          by (auto simp: dfs.simps [of C state g prev_empty V] Let_def goal_test_def
              split: if_splits)
        from "1.IH" [OF refl nl refl refl th _ this "1.prems"(2,3)] False "1.prems"(4)
        show ?thesis by (auto simp: goal_test_def split: if_splits)
      qed
    qed
  qed
next
  case (2 C state g prev_empty d min_threshold V)
  show ?case
  proof (cases "4 \<le> d")
    case True
    with "2.prems" show ?thesis by (auto simp: dfs_dirs.simps [of C state g prev_empty d])
  next
    case d: False
    show ?thesis
    proof (cases "dfs_child C state prev_empty (v_TT V) d")
      case None
      with d "2.prems" have "dfs_dirs C state g prev_empty (d + 1) min_threshold V = (r, V')"
        by (simp add: dfs_dirs.simps [of C state g prev_empty d])
      from "2.IH"(1) [OF d None this "2.prems"(2,3,4)] show ?thesis .
    next
      case (Some nxt)
      let ?mv = "tiles nxt ! nat (empty' state)"
      let ?V1 = "V\<lparr>v_path := v_path V @ [?mv]\<rparr>"
      obtain t V2 where c: "dfs C nxt (g + 1) (empty' state) ?V1 = (t, V2)"
        by (cases "dfs C nxt (g + 1) (empty' state) ?V1") auto
      from d have d4: "d < 4" by simp
      note st = dfs_child_step [OF Some "2.prems"(2,3) d4]
      from "2.IH"(2) [OF d Some c st(1,2)] "2.prems"(4)
      have ih: "if v_found V2 then \<exists>ms. v_path V2 = v_path ?V1 @ ms \<and> reaches_goal C nxt ms
         else v_path V2 = v_path ?V1" by simp
      show ?thesis
      proof (cases "v_found V2")
        case True
        with ih obtain ms where ms: "v_path V2 = v_path V @ ?mv # ms" "reaches_goal C nxt ms"
          by auto
        from d Some c True "2.prems"(1) have "V' = V2"
          by (auto simp: dfs_dirs.simps [of C state g prev_empty d])
        with True ms reaches_goal_Cons [OF ms(2) st(4,5,3)] show ?thesis by auto
      next
        case False
        with ih have p: "butlast (v_path V2) = v_path V" by simp
        from d Some c False "2.prems"(1)
        have "dfs_dirs C state g prev_empty (d + 1) (if t < min_threshold then t else min_threshold)
            (V2\<lparr>v_path := butlast (v_path V2)\<rparr>) = (r, V')"
          by (simp add: dfs_dirs.simps [of C state g prev_empty d])
        from "2.IH"(3) [OF d Some c [symmetric] False this "2.prems"(2,3)] False p
        show ?thesis by (auto split: if_splits)
      qed
    qed
  qed
qed

text \<open>The outer loop returns with \<open>found\<close> set only on a path to the goal.\<close>

lemma ida_loop_path:
  "wf_board start \<Longrightarrow> size' start = c_sz C \<Longrightarrow> \<not> v_found V \<Longrightarrow> v_path V = [] \<Longrightarrow>
   v_found (ida_loop clock time_limit_ms start k C V) \<Longrightarrow>
   reaches_goal C start (v_path (ida_loop clock time_limit_ms start k C V))"
proof (induction clock time_limit_ms start k C V rule: ida_loop.induct)
  case (1 clock time_limit_ms start k C V)
  let ?V0 = "V\<lparr>v_nodes := 0, v_TT := {}\<rparr>"
  obtain r V1 where c: "dfs C start 0 (- 1) ?V0 = (r, V1)"
    by (cases "dfs C start 0 (- 1) ?V0") auto
  from dfs_path(1) [OF c "1.prems"(1,2)] "1.prems"(3,4)
  have p: "if v_found V1 then reaches_goal C start (v_path V1) else v_path V1 = []"
    by (auto split: if_splits)
  show ?case
  proof (cases "v_found V1")
    case True
    with c p show ?thesis by (simp add: ida_loop.simps [of clock time_limit_ms start k C V])
  next
    case nf: False
    show ?thesis
    proof (cases "r = INT_MAX \<or> c_node_limit C < v_nodes V1 \<or> time_limit_ms < clock k")
      case True
      with c nf "1.prems"(5) show ?thesis
        by (auto simp: ida_loop.simps [of clock time_limit_ms start k C V] split: if_splits)
    next
      case False
      with c nf have e: "ida_loop clock time_limit_ms start k C V =
          ida_loop clock time_limit_ms start (k + 1) (C\<lparr>c_threshold := r\<rparr>) V1"
        by (simp add: ida_loop.simps [of clock time_limit_ms start k C V])
      from False nf p "1.prems"(1,2,5) "1.IH" [OF c [symmetric] nf]
      show ?thesis unfolding e by (auto split: if_splits)
    qed
  qed
qed

lemma ida_star_path:
  assumes "r_success (ida_star G clock start sz max_depth stage node_limit time_limit_ms locked)"
    and "wf_board start" "size' start = sz"
  shows "locked_path locked start
           (r_moves (ida_star G clock start sz max_depth stage node_limit time_limit_ms locked)) \<and>
         (\<exists>s'. apply_moves start
                  (r_moves (ida_star G clock start sz max_depth stage node_limit time_limit_ms
                     locked)) = Inr s' \<and>
               wf_board s' \<and> size' s' = sz \<and>
               ((stage = 2 \<and> isSolved s') \<or> (stage = 1 \<and> pdb_heuristic G s' 1 sz = 0)))"
proof -
  let ?C = "\<lparr>c_pdbs = G, c_sz = sz, c_stage = stage, c_node_limit = node_limit,
      c_locked = locked,
      c_threshold = (if stage = 1 then pdb_heuristic G start stage sz else manhattan start)\<rparr>"
  let ?V = "\<lparr>v_nodes = 0, v_TT = {}, v_path = [], v_found = False, v_fail_reason = []\<rparr>"
  from assms(1) have f: "v_found (ida_loop clock time_limit_ms start 0 ?C ?V)"
    by (simp add: ida_star_def Let_def)
  have "reaches_goal ?C start (v_path (ida_loop clock time_limit_ms start 0 ?C ?V))"
    by (rule ida_loop_path [OF assms(2) _ _ _ f]) (simp_all add: assms(3))
  then show ?thesis
    by (auto simp: reaches_goal_def goal_test_def heuristic_def ida_star_def Let_def)
qed

text \<open>
  The breadth-first fallback: every queued item carries the moves that lead from the
  start to its state, none of them onto a locked cell.
\<close>

definition queue_ok ::
  "int \<Rightarrow> int set \<Rightarrow> PuzzleState \<Rightarrow> (PuzzleState \<times> uint8 list) list \<Rightarrow> bool" where
  "queue_ok sz L start Q =
     (\<forall>(st, ms) \<in> set Q.
        wf_board st \<and> size' st = sz \<and> locked_path L start ms \<and> apply_moves start ms = Inr st)"

lemma bibfs_child_ok:
  assumes "queue_ok sz L start (fst QV)" "queue_ok sz L start [(state, ms)]" "d < 4"
  shows "queue_ok sz L start (fst (bibfs_child sz L state ms QV d))"
proof (cases "neighbour sz (empty' state) d")
  case None
  with assms(1) show ?thesis by (simp add: bibfs_child_def)
next
  case (Some ni)
  from assms(2) have s: "wf_board state" "size' state = sz" "locked_path L start ms"
    "apply_moves start ms = Inr state" by (simp_all add: queue_ok_def)
  from Some s(2) have n: "neighbour (size' state) (empty' state) d = Some ni" by simp
  note st = slide_step [OF s(1) n assms(3)]
  show ?thesis
  proof (cases "ni \<in> L \<or> tiles (slide state ni) \<in> snd QV")
    case True
    with assms(1) Some show ?thesis by (auto simp: bibfs_child_def Let_def)
  next
    case False
    with st(3) have "empty' (slide state ni) \<notin> L" by simp
    from locked_path_snoc [OF s(3,4) st(5,4) this] s(4) st(4)
    have "locked_path L start (ms @ [tiles (slide state ni) ! nat (empty' state)])"
      "apply_moves start (ms @ [tiles (slide state ni) ! nat (empty' state)]) = Inr (slide state ni)"
      by (simp_all add: apply_moves_append)
    with False Some assms(1) st(1,2) s(2) show ?thesis
      by (auto simp: bibfs_child_def Let_def queue_ok_def)
  qed
qed

lemma bibfs_children_ok:
  assumes "queue_ok sz L start (fst QV)" "queue_ok sz L start [(state, ms)]" "\<forall>d \<in> set ds. d < 4"
  shows "queue_ok sz L start (fst (foldl (bibfs_child sz L state ms) QV ds))"
  using assms by (induction ds arbitrary: QV) (simp_all add: bibfs_child_ok)

lemma bibfs_loop_Nil:
  "bibfs_loop sz max_depth node_limit L goal [] Vis nodes =
     \<lparr>r_moves = [], r_success = False, r_nodes = nodes, r_length = 0, r_fail_reason = ''failed''\<rparr>"
  by (simp add: bibfs_loop.simps [of sz max_depth node_limit L goal "[]"])

lemma bibfs_loop_Cons:
  "bibfs_loop sz max_depth node_limit L goal ((state, ms) # Q') Vis nodes =
     (if \<not> nodes < node_limit
      then \<lparr>r_moves = [], r_success = False, r_nodes = nodes, r_length = 0,
            r_fail_reason = ''failed''\<rparr>
      else if tiles state = tiles goal
      then \<lparr>r_moves = ms, r_success = True, r_nodes = nodes + 1,
            r_length = int (length ms), r_fail_reason = []\<rparr>
      else if int (length ms) \<ge> max_depth
      then bibfs_loop sz max_depth node_limit L goal Q' Vis (nodes + 1)
      else let QV = foldl (bibfs_child sz L state ms) (Q', Vis) [0..<4]
           in bibfs_loop sz max_depth node_limit L goal (fst QV) (snd QV) (nodes + 1))"
  by (simp add: bibfs_loop.simps [of sz max_depth node_limit L goal "(state, ms) # Q'"])

lemma bibfs_loop_path:
  "queue_ok sz L start Q \<Longrightarrow>
   r_success (bibfs_loop sz max_depth node_limit L goal Q Vis nodes) \<Longrightarrow>
   locked_path L start (r_moves (bibfs_loop sz max_depth node_limit L goal Q Vis nodes)) \<and>
   (\<exists>s'. apply_moves start (r_moves (bibfs_loop sz max_depth node_limit L goal Q Vis nodes)) = Inr s' \<and>
         wf_board s' \<and> size' s' = sz \<and> tiles s' = tiles goal)"
proof (induction sz max_depth node_limit L goal Q Vis nodes rule: bibfs_loop.induct)
  case (1 sz max_depth node_limit L goal Q Vis nodes)
  show ?case
  proof (cases Q)
    case Nil
    with "1.prems" show ?thesis
      by (simp add: bibfs_loop_Nil)
  next
    case (Cons x Q')
    obtain state ms where x: "x = (state, ms)" by (cases x)
    from "1.prems"(1) Cons x have q: "queue_ok sz L start [(state, ms)]" "queue_ok sz L start Q'"
      by (simp_all add: queue_ok_def)
    show ?thesis
    proof (cases "nodes < node_limit")
      case False
      with Cons x "1.prems" show ?thesis
        by (simp add: bibfs_loop_Cons)
    next
      case nl: True
      show ?thesis
      proof (cases "tiles state = tiles goal")
        case True
        with nl Cons x q(1) show ?thesis
          by (simp add: bibfs_loop_Cons queue_ok_def)
      next
        case ng: False
        show ?thesis
        proof (cases "max_depth \<le> int (length ms)")
          case True
          with nl ng Cons x have e: "bibfs_loop sz max_depth node_limit L goal Q Vis nodes =
              bibfs_loop sz max_depth node_limit L goal Q' Vis (nodes + 1)"
            by (simp add: bibfs_loop_Cons)
          from "1.IH"(1) [OF Cons x [symmetric] _ ng True q(2)] nl "1.prems"(2)
          show ?thesis unfolding e by simp
        next
          case False
          let ?QV = "foldl (bibfs_child sz L state ms) (Q', Vis) [0..<4]"
          from nl ng False Cons x have e: "bibfs_loop sz max_depth node_limit L goal Q Vis nodes =
              bibfs_loop sz max_depth node_limit L goal (fst ?QV) (snd ?QV) (nodes + 1)"
            by (simp add: bibfs_loop_Cons Let_def)
          have "queue_ok sz L start (fst ?QV)"
            by (rule bibfs_children_ok) (simp_all add: q)
          from "1.IH"(2) [OF Cons x [symmetric] _ ng False refl this] nl "1.prems"(2)
          show ?thesis unfolding e by simp
        qed
      qed
    qed
  qed
qed

lemma bibfs_path:
  assumes "r_success (bibfs start sz max_depth stage node_limit L)" "wf_board start"
    "size' start = sz"
  shows "locked_path L start (r_moves (bibfs start sz max_depth stage node_limit L)) \<and>
         (\<exists>s'. apply_moves start (r_moves (bibfs start sz max_depth stage node_limit L)) = Inr s' \<and>
               wf_board s' \<and> size' s' = sz \<and> tiles s' = tiles (goal_state sz))"
  unfolding bibfs_def
  by (rule bibfs_loop_path) (use assms in \<open>simp_all add: queue_ok_def bibfs_def\<close>)

section \<open>Boards that pass validation\<close>

text \<open>
  A permutation board: well-formed, of positive size, every byte below \<open>size*size\<close>.
  These are the boards \<open>validate_input\<close> accepts, and a slide keeps them so.
\<close>

definition perm_board :: "PuzzleState \<Rightarrow> bool" where
  "perm_board s =
     (wf_board s \<and> 0 < size' s \<and> (\<forall>t \<in> set (tiles s). unat t < length (tiles s)))"

lemma validate_input_True:
  assumes "length (tiles s) = nat (size' s * size' s)" "validate_input s = Inr True"
  shows "distinct (tiles s)" and "\<forall>t \<in> set (tiles s). unat t < length (tiles s)"
    and "0 < length (tiles s) \<Longrightarrow> 0 \<in> set (tiles s)"
proof -
  let ?n = "length (tiles s)" and ?xs = "map unat (tiles s)"
  have n: "nat (size' s * size' s) = ?n" using assms(1) by simp
  show b: "\<forall>t \<in> set (tiles s). unat t < ?n"
  proof (rule ccontr)
    assume "\<not> ?thesis"
    then obtain i where "i < ?n" "?n \<le> unat (tiles s ! i)"
      by (auto simp: in_set_conv_nth not_less)
    then have "\<exists>i \<in> set [0..<?n]. length (replicate ?n (0::int)) \<le> unat (tiles s ! i)"
      by (intro bexI [of _ i]) simp_all
    from count_loop_oob [OF this] assms(2) show False by (simp add: validate_input_def n)
  qed
  then have "\<forall>i \<in> set [0..<?n]. unat (tiles s ! i) < length (replicate ?n (0::int))" by simp
  from count_loop_ok [OF this] assms(2)
  have c: "\<forall>v < ?n. count_list ?xs v = 1"
    by (auto simp: validate_input_def n list_all_iff filter_index_count)
  have "count_list ?xs a = (if a \<in> set ?xs then 1 else 0)" for a
  proof (cases "a \<in> set ?xs")
    case True
    with b have "a < ?n" by auto
    with c True show ?thesis by simp
  next
    case False
    then show ?thesis by (simp add: count_list_0_iff)
  qed
  then have "\<forall>a. count (mset ?xs) a = (if a \<in> set ?xs then 1 else 0)"
    unfolding count_mset by blast
  then have "distinct ?xs" unfolding distinct_count_atmost_1 .
  then show "distinct (tiles s)" by (simp add: distinct_map)
  assume "0 < ?n"
  with c have "count_list ?xs 0 = 1" by simp
  then have "0 \<in> set ?xs" by (metis count_list_0_iff zero_neq_one)
  then show "0 \<in> set (tiles s)" by (auto simp: unat_eq_0)
qed

lemma validated_perm_board:
  assumes "sz * sz \<le> int (length arr)" "0 < sz"
    and "validate_input (PuzzleState_arr e0 arr sz) = Inr True"
  shows "perm_board (PuzzleState_arr e0 arr sz)" and "size' (PuzzleState_arr e0 arr sz) = sz"
proof -
  let ?s = "PuzzleState_arr e0 arr sz"
  have l: "length (tiles ?s) = nat (size' ?s * size' ?s)" and sz: "size' ?s = sz"
    using assms(1) by (simp_all add: PuzzleState_arr_def Let_def)
  from assms(2) have "0 < nat (sz * sz)" by (intro sq_pos) simp
  with l sz have p: "0 < length (tiles ?s)" by simp
  note v = validate_input_True [OF l assms(3)]
  from v(3) [OF p] obtain j where j: "j < length (tiles ?s)" "tiles ?s ! j = 0"
    by (auto simp: in_set_conv_nth)
  have t: "tiles ?s = take (nat (sz * sz)) arr" by (simp add: PuzzleState_arr_def Let_def)
  have "empty' ?s = find_empty (tiles ?s) (length (tiles ?s)) e0"
    using l sz by (simp add: PuzzleState_arr_def Let_def)
  with find_empty_nth [OF v(1) j] have "empty' ?s = int j" by simp
  with j l v(1,2) assms(2) sz show "perm_board ?s"
    by (simp add: perm_board_def wf_board_def in_range_def)
  show "size' ?s = sz" by (rule sz)
qed

lemma perm_board_apply_moves:
  "perm_board s \<Longrightarrow> legal_moves s ms \<Longrightarrow> apply_moves s ms = Inr s' \<Longrightarrow>
   perm_board s' \<and> size' s' = size' s"
proof (induction ms arbitrary: s)
  case Nil
  then show ?case by simp
next
  case (Cons mv ms)
  from Cons.prems have w: "wf_board s" and l: "legal_move s mv" by (simp_all add: perm_board_def)
  from legal_move_index [OF w l] obtain j where j: "j < length (tiles s)" "tiles s ! j = mv"
    by blast
  from apply_move_wf(1,2) [OF w j(1)] j(2)
  have a: "apply_move s mv = Inr (slide s (int j))" "wf_board (slide s (int j))" by simp_all
  from w have e: "nat (empty' s) < length (tiles s)"
    by (auto simp: wf_board_def in_range_def nat_less_iff)
  from swap_at_props(1,7) [OF e j(1)] Cons.prems(1) a(2)
  have "perm_board (slide s (int j))" "size' (slide s (int j)) = size' s"
    by (simp_all add: perm_board_def slide_def)
  with Cons.IH [of "slide s (int j)"] Cons.prems a(1) show ?case by simp
qed

section \<open>Properties of the heuristics\<close>

lemma tdiv_nonneg: "0 \<le> a \<Longrightarrow> 0 < b \<Longrightarrow> tdiv a b = a div b"
  by (simp add: tdiv_def sgn_if)

lemma tmod_nonneg: "0 \<le> a \<Longrightarrow> 0 < b \<Longrightarrow> tmod a b = a mod b"
  by (simp add: tmod_def tdiv_nonneg minus_mult_div_eq_mod)

lemma tile_dist_nonneg: "0 \<le> tile_dist sz i v"
  by (simp add: tile_dist_def Let_def)

lemma tile_dist_zero:
  assumes "0 < sz"
  shows "tile_dist sz i v = 0 \<longleftrightarrow> v = 0 \<or> unat v = i + 1"
proof (cases "v = 0")
  case True
  then show ?thesis by (simp add: tile_dist_def)
next
  case False
  then have g: "0 \<le> uint v - 1" by (simp add: word_neq_0_conv word_less_def)
  have "tile_dist sz i v = \<bar>(uint v - 1) div sz - int i div sz\<bar> + \<bar>(uint v - 1) mod sz - int i mod sz\<bar>"
    using False g assms by (simp add: tile_dist_def Let_def tdiv_nonneg tmod_nonneg)
  also have "\<dots> = 0 \<longleftrightarrow> (uint v - 1) div sz = int i div sz \<and> (uint v - 1) mod sz = int i mod sz"
    by auto
  also have "\<dots> \<longleftrightarrow> uint v - 1 = int i"
  proof
    assume "(uint v - 1) div sz = int i div sz \<and> (uint v - 1) mod sz = int i mod sz"
    then have "(uint v - 1) div sz * sz + (uint v - 1) mod sz = int i div sz * sz + int i mod sz"
      by simp
    then show "uint v - 1 = int i" by (simp only: div_mult_mod_eq)
  qed simp
  also have "\<dots> \<longleftrightarrow> unat v = i + 1"
  proof -
    have "uint v = int (unat v)" by simp
    then show ?thesis by linarith
  qed
  finally show ?thesis using False by simp
qed

lemma manhattan_zero:
  assumes "perm_board s"
  shows "manhattan s = 0 \<longleftrightarrow> isSolved s"
proof -
  let ?n = "length (tiles s)" and ?sz = "size' s"
  from assms have n: "nat (?sz * ?sz) = ?n" and sz: "0 < ?sz" and d: "distinct (tiles s)"
    by (simp_all add: perm_board_def wf_board_def)
  from assms have b: "\<forall>t \<in> set (tiles s). unat t < ?n"
    unfolding perm_board_def by blast
  from sz n have pos: "0 < ?n" using sq_pos [of ?sz] by simp
  have "manhattan s = 0 \<longleftrightarrow> (\<forall>i < ?n. tile_dist ?sz i (tiles s ! i) = 0)"
    unfolding manhattan_def Let_def n
    by (subst sum_list_nonneg_eq_0_iff) (auto simp: tile_dist_nonneg)
  also have "\<dots> \<longleftrightarrow> (\<forall>i < ?n. tiles s ! i = 0 \<or> unat (tiles s ! i) = i + 1)"
    by (simp add: tile_dist_zero [OF sz])
  also have "\<dots> \<longleftrightarrow> (\<forall>i < ?n - 1. unat (tiles s ! i) = i + 1) \<and> tiles s ! (?n - 1) = 0"
  proof
    assume a: "\<forall>i < ?n. tiles s ! i = 0 \<or> unat (tiles s ! i) = i + 1"
    from b pos have "unat (tiles s ! (?n - 1)) < ?n" by simp
    moreover from pos have "?n - 1 + 1 = ?n" by simp
    moreover from a [rule_format, of "?n - 1"] pos
    have "tiles s ! (?n - 1) = 0 \<or> unat (tiles s ! (?n - 1)) = ?n - 1 + 1"
      by simp
    ultimately have l: "tiles s ! (?n - 1) = 0" by linarith
    have "unat (tiles s ! i) = i + 1" if "i < ?n - 1" for i
    proof -
      from that pos have "i < ?n" "?n - 1 < ?n" "i \<noteq> ?n - 1" by simp_all
      with d have "tiles s ! i \<noteq> tiles s ! (?n - 1)" by (simp add: nth_eq_iff_index_eq)
      with l a \<open>i < ?n\<close> show ?thesis by auto
    qed
    with l show "(\<forall>i < ?n - 1. unat (tiles s ! i) = i + 1) \<and> tiles s ! (?n - 1) = 0" by simp
  next
    assume a: "(\<forall>i < ?n - 1. unat (tiles s ! i) = i + 1) \<and> tiles s ! (?n - 1) = 0"
    show "\<forall>i < ?n. tiles s ! i = 0 \<or> unat (tiles s ! i) = i + 1"
    proof (intro allI impI)
      fix i assume "i < ?n"
      then have "i < ?n - 1 \<or> i = ?n - 1" by auto
      with a show "tiles s ! i = 0 \<or> unat (tiles s ! i) = i + 1" by auto
    qed
  qed
  also have "\<dots> \<longleftrightarrow> isSolved s"
    by (auto simp: isSolved_def Let_def n list_all_iff)
  finally show ?thesis .
qed

text \<open>
  The tables as the program can have them: empty, or as \<open>build_pdb\<close> left them (the
  third is never built). Their only keys hold several 0s, so no board that passed
  validation is a key, and the stage-1 heuristic of such a board is its Manhattan
  distance.
\<close>

definition pdb_built :: "globals \<Rightarrow> bool" where
  "pdb_built G =
     (pdb_4x4_stage1 G \<in> {Map.empty, [pdb_start 4 6 \<mapsto> 0]} \<and>
      pdb_5x5_stage1 G \<in> {Map.empty, [pdb_start 5 12 \<mapsto> 0]} \<and>
      pdb_5x5_stage2 G = Map.empty)"

lemma pdb_heuristic_manhattan:
  assumes "pdb_built G" "distinct (tiles s)"
  shows "pdb_heuristic G s stage sz = manhattan s"
proof -
  have "\<not> distinct (pdb_start 4 6)" "\<not> distinct (pdb_start 5 12)" by code_simp+
  with assms(2) have "tiles s \<noteq> pdb_start 4 6" "tiles s \<noteq> pdb_start 5 12" by auto
  with assms(1) show ?thesis by (auto simp: pdb_heuristic_def pdb_built_def Let_def)
qed

text \<open>
  Claim C4. In a stage-1 search the goal test is \<open>h == 0\<close> with
  \<open>h = pdb_heuristic(state, 1, sz)\<close>. With the tables as \<open>build_pdb\<close> leaves them, no
  board that passed validation is a key, so \<open>h\<close> is the Manhattan distance over all
  tiles: on such boards \<open>h == 0\<close> holds exactly when the whole board is solved, not when
  the prefix tiles are placed.
\<close>

theorem stage1_goal_iff_solved:
  assumes "pdb_built G" "perm_board state"
  shows "pdb_heuristic G state 1 sz = 0 \<longleftrightarrow> isSolved state"
proof -
  from assms(2) have "distinct (tiles state)" by (simp add: perm_board_def wf_board_def)
  from pdb_heuristic_manhattan [OF assms(1) this] manhattan_zero [OF assms(2)]
  show ?thesis by simp
qed

theorem stage1_goal_iff_solved_witness:
  "list_all (\<lambda>i. uint ([1, 2, 3, 4, 5, 6, 7, 8, 9, 0, 11, 12, 13, 10, 14, 15 :: uint8] ! i) = int i + 1)
     [0..<6] \<and>
   pdb_heuristic
     \<lparr>pdb_4x4_stage1 = [pdb_start 4 6 \<mapsto> 0], pdb_5x5_stage1 = Map.empty,
      pdb_5x5_stage2 = Map.empty\<rparr>
     \<lparr>tiles = [1, 2, 3, 4, 5, 6, 7, 8, 9, 0, 11, 12, 13, 10, 14, 15], size' = 4, empty' = 9\<rparr>
     1 4 \<noteq> 0"
proof
  let ?G = "\<lparr>pdb_4x4_stage1 = [pdb_start 4 6 \<mapsto> 0], pdb_5x5_stage1 = Map.empty,
      pdb_5x5_stage2 = Map.empty\<rparr>"
  let ?s = "\<lparr>tiles = [1, 2, 3, 4, 5, 6, 7, 8, 9, 0, 11, 12, 13, 10, 14, 15 :: uint8], size' = 4,
      empty' = 9\<rparr>"
  show "list_all (\<lambda>i. uint ([1, 2, 3, 4, 5, 6, 7, 8, 9, 0, 11, 12, 13, 10, 14, 15 :: uint8] ! i) = int i + 1)
     [0..<6]" by code_simp
  have g: "pdb_built ?G" by (simp add: pdb_built_def)
  have p: "perm_board ?s" by (simp add: perm_board_def wf_board_def in_range_def)
  have n: "\<not> isSolved ?s" by code_simp
  from stage1_goal_iff_solved [OF g p, of 4] n show "pdb_heuristic ?G ?s 1 4 \<noteq> 0" by simp
qed

section \<open>The failure tag of \<open>ida_star\<close>\<close>

text \<open>
  Across a call of \<open>dfs\<close>: the node counter does not decrease; while it has not passed
  \<open>node_limit\<close> the tag is untouched; and \<open>found\<close> is only set while the counter has
  not passed \<open>node_limit\<close>.
\<close>

lemma dfs_tag:
  "dfs C state g p V = (r, V') \<Longrightarrow>
     v_nodes V \<le> v_nodes V' \<and>
     (v_nodes V' \<le> c_node_limit C \<longrightarrow> v_fail_reason V' = v_fail_reason V) \<and>
     (v_found V' \<longrightarrow> v_found V \<or> v_nodes V' \<le> c_node_limit C)"
  "dfs_dirs C state g p d mt V = (r, V') \<Longrightarrow>
     v_nodes V \<le> v_nodes V' \<and>
     (v_nodes V' \<le> c_node_limit C \<longrightarrow> v_fail_reason V' = v_fail_reason V) \<and>
     (v_found V' \<longrightarrow> v_found V \<or> v_nodes V' \<le> c_node_limit C)"
proof (induction C state g p V and C state g p d mt V arbitrary: r V' and r V'
    rule: dfs_dfs_dirs.induct)
  case (1 C state g prev_empty V)
  let ?V1 = "V\<lparr>v_nodes := v_nodes V + 1\<rparr>"
  show ?case
  proof (cases "c_node_limit C < v_nodes ?V1 \<or> c_threshold C < g + heuristic C state \<or>
      goal_test C state")
    case True
    with "1.prems" show ?thesis
      by (auto simp: dfs.simps [of C state g prev_empty V] Let_def goal_test_def split: if_splits)
  next
    case False
    with "1.prems"
    have "dfs_dirs C state g prev_empty 0 INT_MAX (?V1\<lparr>v_TT := insert (tiles state) (v_TT ?V1)\<rparr>)
        = (r, V')"
      by (auto simp: dfs.simps [of C state g prev_empty V] Let_def goal_test_def split: if_splits)
    from "1.IH" [OF refl _ refl refl _ _ this] False show ?thesis
      by (auto simp: goal_test_def)
  qed
next
  case (2 C state g prev_empty d min_threshold V)
  show ?case
  proof (cases "4 \<le> d")
    case True
    with "2.prems" show ?thesis by (auto simp: dfs_dirs.simps [of C state g prev_empty d])
  next
    case d: False
    show ?thesis
    proof (cases "dfs_child C state prev_empty (v_TT V) d")
      case None
      with d "2.prems" have "dfs_dirs C state g prev_empty (d + 1) min_threshold V = (r, V')"
        by (simp add: dfs_dirs.simps [of C state g prev_empty d])
      from "2.IH"(1) [OF d None this] show ?thesis .
    next
      case (Some nxt)
      let ?V1 = "V\<lparr>v_path := v_path V @ [tiles nxt ! nat (empty' state)]\<rparr>"
      obtain t V2 where c: "dfs C nxt (g + 1) (empty' state) ?V1 = (t, V2)"
        by (cases "dfs C nxt (g + 1) (empty' state) ?V1") auto
      from "2.IH"(2) [OF d Some c]
      have ih: "v_nodes V \<le> v_nodes V2"
        "v_nodes V2 \<le> c_node_limit C \<longrightarrow> v_fail_reason V2 = v_fail_reason V"
        "v_found V2 \<longrightarrow> v_found V \<or> v_nodes V2 \<le> c_node_limit C" by simp_all
      show ?thesis
      proof (cases "v_found V2")
        case True
        from d Some c True "2.prems"(1) have "V' = V2"
          by (auto simp: dfs_dirs.simps [of C state g prev_empty d])
        with ih show ?thesis by simp
      next
        case False
        from d Some c False "2.prems"(1)
        have "dfs_dirs C state g prev_empty (d + 1) (if t < min_threshold then t else min_threshold)
            (V2\<lparr>v_path := butlast (v_path V2)\<rparr>) = (r, V')"
          by (simp add: dfs_dirs.simps [of C state g prev_empty d])
        from "2.IH"(3) [OF d Some c [symmetric] False this] ih False
        show ?thesis by auto
      qed
    qed
  qed
qed

lemma ida_loop_tag:
  "\<not> v_found V \<Longrightarrow> v_fail_reason V = [] \<Longrightarrow>
   (v_found (ida_loop clock time_limit_ms start k C V) \<longrightarrow>
      v_fail_reason (ida_loop clock time_limit_ms start k C V) = []) \<and>
   (\<not> v_found (ida_loop clock time_limit_ms start k C V) \<longrightarrow>
      (v_fail_reason (ida_loop clock time_limit_ms start k C V) = ''search_limit'' \<or>
       v_fail_reason (ida_loop clock time_limit_ms start k C V) = ''timeout'') \<and>
      (c_node_limit C < v_nodes (ida_loop clock time_limit_ms start k C V) \<longrightarrow>
         v_fail_reason (ida_loop clock time_limit_ms start k C V) = ''search_limit''))"
proof (induction clock time_limit_ms start k C V rule: ida_loop.induct)
  case (1 clock time_limit_ms start k C V)
  let ?V0 = "V\<lparr>v_nodes := 0, v_TT := {}\<rparr>"
  obtain r V1 where c: "dfs C start 0 (- 1) ?V0 = (r, V1)"
    by (cases "dfs C start 0 (- 1) ?V0") auto
  from dfs_tag(1) [OF c] "1.prems"
  have t: "v_nodes V1 \<le> c_node_limit C \<longrightarrow> v_fail_reason V1 = []"
    "v_found V1 \<longrightarrow> v_nodes V1 \<le> c_node_limit C" by simp_all
  show ?case
  proof (cases "v_found V1")
    case True
    with c t show ?thesis by (simp add: ida_loop.simps [of clock time_limit_ms start k C V])
  next
    case nf: False
    show ?thesis
    proof (cases "r = INT_MAX \<or> c_node_limit C < v_nodes V1")
      case True
      with c nf show ?thesis
        by (auto simp: ida_loop.simps [of clock time_limit_ms start k C V])
    next
      case lim: False
      show ?thesis
      proof (cases "time_limit_ms < clock k")
        case True
        with c nf lim show ?thesis
          by (auto simp: ida_loop.simps [of clock time_limit_ms start k C V])
      next
        case False
        with c nf lim have e: "ida_loop clock time_limit_ms start k C V =
            ida_loop clock time_limit_ms start (k + 1) (C\<lparr>c_threshold := r\<rparr>) V1"
          by (simp add: ida_loop.simps [of clock time_limit_ms start k C V])
        from lim t(1) have "v_fail_reason V1 = []" by simp
        from "1.IH" [OF c [symmetric] nf lim False nf this]
        show ?thesis unfolding e by simp
      qed
    qed
  qed
qed

text \<open>
  Claim C6, as the code has it. A call of \<open>ida_star\<close> that succeeds returns the empty
  tag; one that fails returns \<open>search_limit\<close> or \<open>timeout\<close>, never \<open>node_limit\<close>; and
  one that fails with its node counter above \<open>node_limit\<close> returns \<open>search_limit\<close>: the
  tag \<open>node_limit\<close> that \<open>dfs\<close> sets is overwritten by the outer loop.
\<close>

theorem ida_star_tags:
  "(r_success (ida_star G clock start sz md stage nl tlim L) \<longrightarrow>
      r_fail_reason (ida_star G clock start sz md stage nl tlim L) = []) \<and>
   (\<not> r_success (ida_star G clock start sz md stage nl tlim L) \<longrightarrow>
      (r_fail_reason (ida_star G clock start sz md stage nl tlim L) = ''search_limit'' \<or>
       r_fail_reason (ida_star G clock start sz md stage nl tlim L) = ''timeout'') \<and>
      (nl < r_nodes (ida_star G clock start sz md stage nl tlim L) \<longrightarrow>
         r_fail_reason (ida_star G clock start sz md stage nl tlim L) = ''search_limit''))"
proof -
  let ?C = "\<lparr>c_pdbs = G, c_sz = sz, c_stage = stage, c_node_limit = nl, c_locked = L,
      c_threshold = (if stage = 1 then pdb_heuristic G start stage sz else manhattan start)\<rparr>"
  let ?V = "\<lparr>v_nodes = 0, v_TT = {}, v_path = [], v_found = False, v_fail_reason = []\<rparr>"
  from ida_loop_tag [of ?V clock tlim start 0 ?C] show ?thesis
    by (simp add: ida_star_def Let_def)
qed

theorem ida_star_tags_witness:
  "\<not> r_success
       (ida_star \<lparr>pdb_4x4_stage1 = Map.empty, pdb_5x5_stage1 = Map.empty, pdb_5x5_stage2 = Map.empty\<rparr>
          (\<lambda>k. 0)
          \<lparr>tiles = [1, 2, 3, 4, 5, 6, 7, 8, 9, 10, 11, 12, 13, 14, 0, 15], size' = 4, empty' = 14\<rparr>
          4 40 2 0 16000 {}) \<and>
   0 < r_nodes
       (ida_star \<lparr>pdb_4x4_stage1 = Map.empty, pdb_5x5_stage1 = Map.empty, pdb_5x5_stage2 = Map.empty\<rparr>
          (\<lambda>k. 0)
          \<lparr>tiles = [1, 2, 3, 4, 5, 6, 7, 8, 9, 10, 11, 12, 13, 14, 0, 15], size' = 4, empty' = 14\<rparr>
          4 40 2 0 16000 {}) \<and>
   r_fail_reason
       (ida_star \<lparr>pdb_4x4_stage1 = Map.empty, pdb_5x5_stage1 = Map.empty, pdb_5x5_stage2 = Map.empty\<rparr>
          (\<lambda>k. 0)
          \<lparr>tiles = [1, 2, 3, 4, 5, 6, 7, 8, 9, 10, 11, 12, 13, 14, 0, 15], size' = 4, empty' = 14\<rparr>
          4 40 2 0 16000 {}) = ''search_limit''"
proof -
  let ?res = "ida_star \<lparr>pdb_4x4_stage1 = Map.empty, pdb_5x5_stage1 = Map.empty, pdb_5x5_stage2 = Map.empty\<rparr>
          (\<lambda>k. 0)
          \<lparr>tiles = [1, 2, 3, 4, 5, 6, 7, 8, 9, 10, 11, 12, 13, 14, 0, 15], size' = 4, empty' = 14\<rparr>
          4 40 2 0 16000 {}"
  have a: "\<not> r_success ?res" by code_simp
  have b: "0 < r_nodes ?res" by code_simp
  from ida_star_tags [of _ "\<lambda>k. 0" _ 4 40 2 0 16000 "{}"] a b
  have "r_fail_reason ?res = ''search_limit''" by blast
  with a b show ?thesis by blast
qed

section \<open>Properties of the stage controller\<close>

lemma isSolved_tiles: "tiles a = tiles b \<Longrightarrow> size' a = size' b \<Longrightarrow> isSolved a = isSolved b"
  by (simp add: isSolved_def)

lemma isSolved_goal_state:
  assumes "sz = 4 \<or> sz = 5" "tiles s = tiles (goal_state sz)" "size' s = sz"
  shows "isSolved s"
proof -
  have "isSolved (goal_state 4)" "isSolved (goal_state 5)" by code_simp+
  moreover have "size' (goal_state sz) = sz" by (simp add: goal_state_def PuzzleState_sz_def Let_def)
  ultimately show ?thesis using assms isSolved_tiles [of s "goal_state sz"] by auto
qed

text \<open>
  Cell \<open>c\<close> holds tile \<open>c+1\<close> on every board met while the moves \<open>ms\<close> are replayed
  from \<open>s\<close> (the board before the first move and the board after each move).
\<close>

definition keeps_cell :: "int \<Rightarrow> PuzzleState \<Rightarrow> uint8 list \<Rightarrow> bool" where
  "keeps_cell c s ms =
     (\<forall>k \<le> length ms. \<exists>b. apply_moves s (take k ms) = Inr b \<and> uint (tiles b ! nat c) = c + 1)"

lemma keeps_cell_append:
  assumes "keeps_cell c s ms1" "apply_moves s ms1 = Inr s1" "keeps_cell c s1 ms2"
  shows "keeps_cell c s (ms1 @ ms2)"
  unfolding keeps_cell_def
proof (intro allI impI)
  fix k assume "k \<le> length (ms1 @ ms2)"
  show "\<exists>b. apply_moves s (take k (ms1 @ ms2)) = Inr b \<and> uint (tiles b ! nat c) = c + 1"
  proof (cases "k \<le> length ms1")
    case True
    with assms(1) show ?thesis by (simp add: keeps_cell_def)
  next
    case False
    with \<open>k \<le> length (ms1 @ ms2)\<close> have "k - length ms1 \<le> length ms2" by simp
    with assms(3) obtain b where "apply_moves s1 (take (k - length ms1) ms2) = Inr b"
      "uint (tiles b ! nat c) = c + 1" unfolding keeps_cell_def by blast
    with False assms(2) show ?thesis by (simp add: apply_moves_append)
  qed
qed

text \<open>A path that avoids the cells of \<open>L\<close> leaves their contents alone.\<close>

lemma locked_path_cells:
  "wf_board s \<Longrightarrow> empty' s \<notin> L \<Longrightarrow> locked_path L s ms \<Longrightarrow> k \<le> length ms \<Longrightarrow>
   \<exists>b. apply_moves s (take k ms) = Inr b \<and> (\<forall>c \<in> L. 0 \<le> c \<longrightarrow> tiles b ! nat c = tiles s ! nat c)"
proof (induction ms arbitrary: s k)
  case Nil
  then show ?case by simp
next
  case (Cons mv ms)
  show ?case
  proof (cases k)
    case 0
    then show ?thesis by simp
  next
    case (Suc k')
    from Cons.prems(3) have l: "legal_move s mv" by simp
    from legal_move_index [OF Cons.prems(1) l] obtain j where
      j: "j < length (tiles s)" "tiles s ! j = mv" by blast
    from apply_move_wf(1,2) [OF Cons.prems(1) j(1)] j(2)
    have a: "apply_move s mv = Inr (slide s (int j))" "wf_board (slide s (int j))" by simp_all
    from Cons.prems(3) a(1) have n: "empty' (slide s (int j)) \<notin> L"
      "locked_path L (slide s (int j)) ms" by simp_all
    from Cons.prems(4) Suc have "k' \<le> length ms" by simp
    from Cons.IH [OF a(2) n this] obtain b where
      b: "apply_moves (slide s (int j)) (take k' ms) = Inr b"
      "\<forall>c \<in> L. 0 \<le> c \<longrightarrow> tiles b ! nat c = tiles (slide s (int j)) ! nat c" by blast
    have "tiles (slide s (int j)) ! nat c = tiles s ! nat c" if "c \<in> L" "0 \<le> c" for c
    proof -
      from Cons.prems(1) have e: "0 \<le> empty' s" by (simp add: wf_board_def in_range_def)
      from that n(1) Cons.prems(2) have "c \<noteq> int j" "c \<noteq> empty' s" by (auto simp: slide_def)
      with that(2) e have "nat c \<noteq> nat (empty' s)" "nat c \<noteq> j" by auto
      then show ?thesis by (simp add: slide_def swap_at_def)
    qed
    with b a(1) Suc show ?thesis by auto
  qed
qed

text \<open>
  The invariant of the stage loops: the current board is a permutation board of the
  solver's size, and every locked cell \<open>c\<close> holds tile \<open>c+1\<close>.
\<close>

definition stage_inv :: "int \<Rightarrow> solver \<Rightarrow> bool" where
  "stage_inv sz S =
     (perm_board (s_cur S) \<and> size' (s_cur S) = sz \<and>
      (\<forall>c \<in> s_locked S. 0 \<le> c \<and> uint (tiles (s_cur S) ! nat c) = c + 1))"

lemma stage_inv_blank:
  assumes "stage_inv sz S"
  shows "empty' (s_cur S) \<notin> s_locked S"
proof
  assume "empty' (s_cur S) \<in> s_locked S"
  with assms have "uint (tiles (s_cur S) ! nat (empty' (s_cur S))) = empty' (s_cur S) + 1"
    "0 \<le> empty' (s_cur S)" by (auto simp: stage_inv_def)
  moreover from assms have "tiles (s_cur S) ! nat (empty' (s_cur S)) = 0"
    by (simp add: stage_inv_def perm_board_def wf_board_def)
  ultimately show False by simp
qed

text \<open>
  What a successful search from a solver state gives: its moves lead to a permutation
  board, never touch a locked cell, and keep every locked tile in place on the way.
\<close>

lemma search_moves_keep:
  assumes "stage_inv sz S" "locked_path (s_locked S) (s_cur S) ms"
    "apply_moves (s_cur S) ms = Inr s'"
  shows "perm_board s'" and "size' s' = sz"
    and "\<forall>c \<in> s_locked S. keeps_cell c (s_cur S) ms"
    and "\<forall>c \<in> s_locked S. uint (tiles s' ! nat c) = c + 1"
proof -
  from assms(1) have p: "perm_board (s_cur S)" and w: "wf_board (s_cur S)"
    and sz: "size' (s_cur S) = sz" by (simp_all add: stage_inv_def perm_board_def)
  from perm_board_apply_moves [OF p locked_path_legal [OF assms(2)] assms(3)] sz
  show "perm_board s'" "size' s' = sz" by simp_all
  note cells = locked_path_cells [OF w stage_inv_blank [OF assms(1)] assms(2)]
  show k: "\<forall>c \<in> s_locked S. keeps_cell c (s_cur S) ms"
  proof
    fix c assume c: "c \<in> s_locked S"
    with assms(1) have c0: "0 \<le> c" "uint (tiles (s_cur S) ! nat c) = c + 1"
      by (simp_all add: stage_inv_def)
    show "keeps_cell c (s_cur S) ms"
      unfolding keeps_cell_def
    proof (intro allI impI)
      fix k assume "k \<le> length ms"
      from cells [OF this] c c0 show
        "\<exists>b. apply_moves (s_cur S) (take k ms) = Inr b \<and> uint (tiles b ! nat c) = c + 1"
        by auto
    qed
  qed
  show "\<forall>c \<in> s_locked S. uint (tiles s' ! nat c) = c + 1"
  proof
    fix c assume "c \<in> s_locked S"
    with k have "keeps_cell c (s_cur S) ms" by blast
    then obtain b where "apply_moves (s_cur S) (take (length ms) ms) = Inr b"
      "uint (tiles b ! nat c) = c + 1" unfolding keeps_cell_def by blast
    with assms(3) show "uint (tiles s' ! nat c) = c + 1" by simp
  qed
qed

lemma legal_moves_append:
  "legal_moves s xs \<Longrightarrow> apply_moves s xs = Inr s' \<Longrightarrow> legal_moves s' ys \<Longrightarrow>
   legal_moves s (xs @ ys)"
  by (induction xs arbitrary: s) (auto split: sum.splits)

text \<open>One iteration of the stage-1 loop, from a state that satisfies the invariant.\<close>

lemma stage1_step_cases:
  assumes "stage_inv sz S" "pdb_built G" "i < nat (sz * sz) - 1"
  shows "stage1_step G clk sz md nl tlim i S = Inr None \<or>
         (\<exists>S' ms. stage1_step G clk sz md nl tlim i S = Inr (Some S') \<and>
            s_locked S' = insert (int i) (s_locked S) \<and>
            s_all_moves S' = s_all_moves S @ ms \<and>
            locked_path (s_locked S) (s_cur S) ms \<and>
            apply_moves (s_cur S) ms = Inr (s_cur S') \<and> stage_inv sz S')"
proof (cases "uint (tiles (s_cur S) ! i) = int i + 1")
  case True
  let ?S' = "S\<lparr>s_locked := insert (int i) (s_locked S)\<rparr>"
  from True assms(1) have "stage_inv sz ?S'" by (auto simp: stage_inv_def)
  with True have "stage1_step G clk sz md nl tlim i S = Inr (Some ?S') \<and>
      s_locked ?S' = insert (int i) (s_locked S) \<and> s_all_moves ?S' = s_all_moves S @ [] \<and>
      locked_path (s_locked S) (s_cur S) [] \<and> apply_moves (s_cur S) [] = Inr (s_cur ?S') \<and>
      stage_inv sz ?S'"
    by (simp add: stage1_step_def)
  then show ?thesis by blast
next
  case False
  let ?res = "ida_star G (clk i) (s_cur S) sz md 1 nl tlim (s_locked S)"
  show ?thesis
  proof (cases "r_success ?res")
    case nf: False
    with False show ?thesis by (simp add: stage1_step_def)
  next
    case True
    from assms(1) have w: "wf_board (s_cur S)" "size' (s_cur S) = sz"
      by (simp_all add: stage_inv_def perm_board_def)
    from ida_star_path [OF True w] obtain s' where
      p: "locked_path (s_locked S) (s_cur S) (r_moves ?res)"
      and a: "apply_moves (s_cur S) (r_moves ?res) = Inr s'"
      and h: "pdb_heuristic G s' 1 sz = 0" by auto
    note k = search_moves_keep [OF assms(1) p a]
    from k(1) have d: "distinct (tiles s')" and n: "length (tiles s') = nat (size' s' * size' s')"
      by (simp_all add: perm_board_def wf_board_def)
    from h pdb_heuristic_manhattan [OF assms(2) d] manhattan_zero [OF k(1)]
    have "isSolved s'" by simp
    with assms(3) k(2) n have "unat (tiles s' ! i) = i + 1"
      by (simp add: isSolved_def Let_def list_all_iff)
    then have i: "uint (tiles s' ! i) = int i + 1" by (simp add: uint_nat)
    let ?S' = "\<lparr>s_cur = s', s_locked = insert (int i) (s_locked S),
        s_all_moves = s_all_moves S @ r_moves ?res\<rparr>"
    from assms(1) have "\<forall>c \<in> s_locked S. 0 \<le> c" by (simp add: stage_inv_def)
    with k i have "stage_inv sz ?S'" by (auto simp: stage_inv_def)
    with False True a p have "stage1_step G clk sz md nl tlim i S = Inr (Some ?S') \<and>
        s_locked ?S' = insert (int i) (s_locked S) \<and>
        s_all_moves ?S' = s_all_moves S @ r_moves ?res \<and>
        locked_path (s_locked S) (s_cur S) (r_moves ?res) \<and>
        apply_moves (s_cur S) (r_moves ?res) = Inr (s_cur ?S') \<and> stage_inv sz ?S'"
      by (simp add: stage1_step_def Let_def)
    then show ?thesis by blast
  qed
qed

lemma stage1_loop_Suc_Some:
  assumes "stage1_loop G clk sz md nl tlim (Suc m) S0 = Inr (Some S')"
  shows "\<exists>S. stage1_loop G clk sz md nl tlim m S0 = Inr (Some S) \<and>
             stage1_step G clk sz md nl tlim m S = Inr (Some S')"
  using assms by (auto split: sum.splits option.splits)

text \<open>
  The stage-1 loop from a state \<open>Sa\<close> reached after \<open>a\<close> iterations to the state \<open>Sm\<close>
  reached after \<open>m \<ge> a\<close> iterations: the locked set has grown, the moves were
  appended, and every cell locked in \<open>Sa\<close> kept its tile on every board in between.
\<close>

lemma stage1_loop_keeps:
  assumes "stage_inv sz Sa" "pdb_built G" "m \<le> nat (sz * sz) - 1" "a \<le> m"
    and "stage1_loop G clk sz md nl tlim a S0 = Inr (Some Sa)"
    and "stage1_loop G clk sz md nl tlim m S0 = Inr (Some Sm)"
  shows "stage_inv sz Sm \<and> s_locked Sa \<subseteq> s_locked Sm \<and>
         (\<exists>ms. s_all_moves Sm = s_all_moves Sa @ ms \<and>
               legal_moves (s_cur Sa) ms \<and>
               apply_moves (s_cur Sa) ms = Inr (s_cur Sm) \<and>
               (\<forall>c \<in> s_locked Sa. keeps_cell c (s_cur Sa) ms))"
  using assms(3,4,6)
proof (induction m arbitrary: Sm)
  case 0
  with assms(5) have "Sm = Sa" by simp
  moreover from assms(1) have "\<forall>c \<in> s_locked Sa. keeps_cell c (s_cur Sa) []"
    by (simp add: keeps_cell_def stage_inv_def)
  ultimately show ?case using assms(1) by simp
next
  case (Suc m)
  show ?case
  proof (cases "a = Suc m")
    case True
    with Suc.prems(3) assms(5) have "Sm = Sa" by simp
    moreover from assms(1) have "\<forall>c \<in> s_locked Sa. keeps_cell c (s_cur Sa) []"
      by (simp add: keeps_cell_def stage_inv_def)
    ultimately show ?thesis using assms(1) by simp
  next
    case False
    with Suc.prems(2) have am: "a \<le> m" by simp
    from stage1_loop_Suc_Some [OF Suc.prems(3)] obtain S where
      S: "stage1_loop G clk sz md nl tlim m S0 = Inr (Some S)"
      "stage1_step G clk sz md nl tlim m S = Inr (Some Sm)" by blast
    from Suc.prems(1) have m1: "m \<le> nat (sz * sz) - 1" and m2: "m < nat (sz * sz) - 1" by simp_all
    from Suc.IH [OF m1 am S(1)] obtain ms where
      ih: "stage_inv sz S" "s_locked Sa \<subseteq> s_locked S" "s_all_moves S = s_all_moves Sa @ ms"
      "legal_moves (s_cur Sa) ms"
      "apply_moves (s_cur Sa) ms = Inr (s_cur S)" "\<forall>c \<in> s_locked Sa. keeps_cell c (s_cur Sa) ms"
      by blast
    from stage1_step_cases [OF ih(1) assms(2) m2, of clk md nl tlim] S(2) obtain ms2 where
      st: "s_locked Sm = insert (int m) (s_locked S)" "s_all_moves Sm = s_all_moves S @ ms2"
      "locked_path (s_locked S) (s_cur S) ms2" "apply_moves (s_cur S) ms2 = Inr (s_cur Sm)"
      "stage_inv sz Sm" by auto
    from search_moves_keep(3) [OF ih(1) st(3,4)] ih(2)
    have "\<forall>c \<in> s_locked Sa. keeps_cell c (s_cur S) ms2" by blast
    with ih(5,6) have "\<forall>c \<in> s_locked Sa. keeps_cell c (s_cur Sa) (ms @ ms2)"
      by (blast intro: keeps_cell_append)
    moreover from ih(4,5) locked_path_legal [OF st(3)]
    have "legal_moves (s_cur Sa) (ms @ ms2)" by (rule legal_moves_append)
    ultimately show ?thesis
      using st ih(2,3,5) by (auto simp: apply_moves_append)
  qed
qed

lemma stage_inv_init:
  "perm_board start \<Longrightarrow> size' start = sz \<Longrightarrow>
   stage_inv sz \<lparr>s_cur = start, s_locked = {}, s_all_moves = []\<rparr>"
  by (simp add: stage_inv_def)

text \<open>What a successful endgame search from a solver state gives.\<close>

lemma endgame_search_keeps:
  assumes "stage_inv sz S"
  shows "r_success (ida_star G c (s_cur S) sz md stage nl tlim (s_locked S)) \<Longrightarrow>
           locked_path (s_locked S) (s_cur S)
             (r_moves (ida_star G c (s_cur S) sz md stage nl tlim (s_locked S))) \<and>
           (\<forall>x \<in> s_locked S. keeps_cell x (s_cur S)
              (r_moves (ida_star G c (s_cur S) sz md stage nl tlim (s_locked S))))"
    and "r_success (bibfs (s_cur S) sz md stage nl (s_locked S)) \<Longrightarrow>
           locked_path (s_locked S) (s_cur S) (r_moves (bibfs (s_cur S) sz md stage nl (s_locked S))) \<and>
           (\<forall>x \<in> s_locked S. keeps_cell x (s_cur S)
              (r_moves (bibfs (s_cur S) sz md stage nl (s_locked S))))"
proof -
  from assms have w: "wf_board (s_cur S)" "size' (s_cur S) = sz"
    by (simp_all add: stage_inv_def perm_board_def)
  {
    assume "r_success (ida_star G c (s_cur S) sz md stage nl tlim (s_locked S))"
    from ida_star_path [OF this w] search_moves_keep(3) [OF assms]
    show "locked_path (s_locked S) (s_cur S)
             (r_moves (ida_star G c (s_cur S) sz md stage nl tlim (s_locked S))) \<and>
           (\<forall>x \<in> s_locked S. keeps_cell x (s_cur S)
              (r_moves (ida_star G c (s_cur S) sz md stage nl tlim (s_locked S))))"
      by blast
  }
  {
    assume "r_success (bibfs (s_cur S) sz md stage nl (s_locked S))"
    from bibfs_path [OF this w] search_moves_keep(3) [OF assms]
    show "locked_path (s_locked S) (s_cur S) (r_moves (bibfs (s_cur S) sz md stage nl (s_locked S))) \<and>
           (\<forall>x \<in> s_locked S. keeps_cell x (s_cur S)
              (r_moves (bibfs (s_cur S) sz md stage nl (s_locked S))))"
      by blast
  }
qed

text \<open>
  Claim C2. Take a solve of a validated board (\<open>solve_4x4\<close> runs the stage-1 loop with
  \<open>sz = 4\<close> for cells 0..5, \<open>solve_5x5\<close> with \<open>sz = 5\<close> for cells 0..11; in both every
  prefix cell is below \<open>sz*sz - 1\<close>). Let \<open>Si\<close> be the solver state right after
  iteration \<open>i\<close>, when cell \<open>i\<close> has been locked, and \<open>Sm\<close> the state after \<open>m > i\<close>
  iterations. Then: cell \<open>i\<close> is locked in \<open>Si\<close>; the locked set of \<open>Si\<close> is part of that
  of \<open>Sm\<close>; the moves accumulated from \<open>Si\<close> to \<open>Sm\<close> lead from the board of \<open>Si\<close> to the
  board of \<open>Sm\<close>, and on every board in between cell \<open>i\<close> holds tile \<open>i+1\<close>; the same holds
  along the moves of a successful endgame search (IDA* or the BFS fallback) started
  from \<open>Sm\<close>. And every search refuses moves onto locked cells: the moves a successful
  \<open>ida_star\<close> or \<open>bibfs\<close> call returns are legal one after the other and none slides the
  blank onto a cell of its \<open>locked\<close> argument.
\<close>

theorem locked_cells_stay:
  assumes "perm_board start" "size' start = sz" "pdb_built G"
    and "i < m" "m \<le> nat (sz * sz) - 1"
    and "stage1_loop G clk sz md nl tlim (Suc i)
           \<lparr>s_cur = start, s_locked = {}, s_all_moves = []\<rparr> = Inr (Some Si)"
    and "stage1_loop G clk sz md nl tlim m
           \<lparr>s_cur = start, s_locked = {}, s_all_moves = []\<rparr> = Inr (Some Sm)"
  shows "int i \<in> s_locked Si \<and> s_locked Si \<subseteq> s_locked Sm \<and>
         (\<exists>ms. s_all_moves Sm = s_all_moves Si @ ms \<and>
               apply_moves (s_cur Si) ms = Inr (s_cur Sm) \<and>
               keeps_cell (int i) (s_cur Si) ms) \<and>
         (r_success (ida_star G c (s_cur Sm) sz md2 2 nl2 tlim2 (s_locked Sm)) \<longrightarrow>
            locked_path (s_locked Sm) (s_cur Sm)
              (r_moves (ida_star G c (s_cur Sm) sz md2 2 nl2 tlim2 (s_locked Sm))) \<and>
            keeps_cell (int i) (s_cur Sm)
              (r_moves (ida_star G c (s_cur Sm) sz md2 2 nl2 tlim2 (s_locked Sm)))) \<and>
         (r_success (bibfs (s_cur Sm) sz md2 2 nl2 (s_locked Sm)) \<longrightarrow>
            locked_path (s_locked Sm) (s_cur Sm)
              (r_moves (bibfs (s_cur Sm) sz md2 2 nl2 (s_locked Sm))) \<and>
            keeps_cell (int i) (s_cur Sm) (r_moves (bibfs (s_cur Sm) sz md2 2 nl2 (s_locked Sm)))) \<and>
         (wf_board s \<and> size' s = z \<longrightarrow>
            (r_success (ida_star G' c' s z md' stage' nl' tlim' L) \<longrightarrow>
               locked_path L s (r_moves (ida_star G' c' s z md' stage' nl' tlim' L))) \<and>
            (r_success (bibfs s z md' stage' nl' L) \<longrightarrow>
               locked_path L s (r_moves (bibfs s z md' stage' nl' L))))"
proof -
  let ?S0 = "\<lparr>s_cur = start, s_locked = {}, s_all_moves = []\<rparr>"
  note inv0 = stage_inv_init [OF assms(1,2)]
  from assms(4,5) have i1: "Suc i \<le> nat (sz * sz) - 1" "i < nat (sz * sz) - 1" "Suc i \<le> m"
    by simp_all
  have z: "stage1_loop G clk sz md nl tlim 0 ?S0 = Inr (Some ?S0)" by simp
  from stage1_loop_keeps [OF inv0 assms(3) i1(1) _ z assms(6)]
  have invi: "stage_inv sz Si" by simp
  from stage1_loop_Suc_Some [OF assms(6)] obtain S where
    S: "stage1_loop G clk sz md nl tlim i ?S0 = Inr (Some S)"
    "stage1_step G clk sz md nl tlim i S = Inr (Some Si)" by blast
  from i1(2) have "i \<le> nat (sz * sz) - 1" by simp
  from stage1_loop_keeps [OF inv0 assms(3) this _ z S(1)] have "stage_inv sz S" by simp
  from stage1_step_cases [OF this assms(3) i1(2), of clk md nl tlim] S(2)
  have li: "int i \<in> s_locked Si" by auto
  from stage1_loop_keeps [OF invi assms(3,5) i1(3) assms(6,7)] obtain ms where
    m: "stage_inv sz Sm" "s_locked Si \<subseteq> s_locked Sm" "s_all_moves Sm = s_all_moves Si @ ms"
    "apply_moves (s_cur Si) ms = Inr (s_cur Sm)" "\<forall>x \<in> s_locked Si. keeps_cell x (s_cur Si) ms"
    by blast
  from li m(2) have lm: "int i \<in> s_locked Sm" by blast
  have "r_success (ida_star G' c' s z md' stage' nl' tlim' L) \<longrightarrow>
      locked_path L s (r_moves (ida_star G' c' s z md' stage' nl' tlim' L))"
    if "wf_board s" "size' s = z"
    using ida_star_path [OF _ that] by blast
  moreover have "r_success (bibfs s z md' stage' nl' L) \<longrightarrow>
      locked_path L s (r_moves (bibfs s z md' stage' nl' L))"
    if "wf_board s" "size' s = z"
    using bibfs_path [OF _ that] by blast
  ultimately show ?thesis
    using li m(2,3,4,5) lm endgame_search_keeps [OF m(1)] by blast
qed

theorem locked_cells_stay_witness:
  "keeps_cell 0
     \<lparr>tiles = [1, 2, 3, 4, 5, 0, 7, 8, 9, 6, 11, 12, 13, 10, 14, 15], size' = 4, empty' = 5\<rparr>
     [6, 10, 14, 15] \<and>
   stage1_loop
     \<lparr>pdb_4x4_stage1 = [pdb_start 4 6 \<mapsto> 0], pdb_5x5_stage1 = Map.empty, pdb_5x5_stage2 = Map.empty\<rparr>
     (\<lambda>i k. 0) 4 18 300000 4000 6
     \<lparr>s_cur = \<lparr>tiles = [1, 2, 3, 4, 5, 0, 7, 8, 9, 6, 11, 12, 13, 10, 14, 15], size' = 4, empty' = 5\<rparr>,
      s_locked = {}, s_all_moves = []\<rparr> =
   Inr (Some \<lparr>s_cur = \<lparr>tiles = [1, 2, 3, 4, 5, 6, 7, 8, 9, 10, 11, 12, 13, 14, 15, 0], size' = 4,
                         empty' = 15\<rparr>,
               s_locked = {0, 1, 2, 3, 4, 5}, s_all_moves = [6, 10, 14, 15]\<rparr>)"
proof -
  let ?G = "\<lparr>pdb_4x4_stage1 = [pdb_start 4 6 \<mapsto> 0], pdb_5x5_stage1 = Map.empty,
      pdb_5x5_stage2 = Map.empty\<rparr>"
  let ?start = "\<lparr>tiles = [1, 2, 3, 4, 5, 0, 7, 8, 9, 6, 11, 12, 13, 10, 14, 15 :: uint8], size' = 4,
      empty' = 5\<rparr>"
  let ?S0 = "\<lparr>s_cur = ?start, s_locked = {}, s_all_moves = []\<rparr>"
  let ?S1 = "\<lparr>s_cur = ?start, s_locked = {0}, s_all_moves = []\<rparr>"
  let ?S6 = "\<lparr>s_cur = \<lparr>tiles = [1, 2, 3, 4, 5, 6, 7, 8, 9, 10, 11, 12, 13, 14, 15, 0 :: uint8], size' = 4,
      empty' = 15\<rparr>, s_locked = {0, 1, 2, 3, 4, 5}, s_all_moves = [6, 10, 14, 15]\<rparr>"
  have p: "perm_board ?start" by (simp add: perm_board_def wf_board_def in_range_def)
  have g: "pdb_built ?G" by (simp add: pdb_built_def)
  have s1: "stage1_loop ?G (\<lambda>i k. 0) 4 18 300000 4000 (Suc 0) ?S0 = Inr (Some ?S1)" by code_simp
  have s6: "stage1_loop ?G (\<lambda>i k. 0) 4 18 300000 4000 6 ?S0 = Inr (Some ?S6)" by code_simp
  from locked_cells_stay [OF p _ g _ _ s1 s6]
  have "\<exists>ms. s_all_moves ?S6 = s_all_moves ?S1 @ ms \<and> keeps_cell (int 0) (s_cur ?S1) ms"
    by simp
  with s6 show ?thesis by simp
qed

section \<open>Correctness of the solver\<close>

lemma write_moves_read: "map (write_moves am moves_out) [0..<length am] = am"
  by (rule nth_equalityI) (simp_all add: write_moves_def)

lemma write_moves_Nil: "write_moves [] moves_out = moves_out"
  by (simp add: write_moves_def)

text \<open>
  The outcome of \<open>solve_4x4\<close> and \<open>solve_5x5\<close>: \<open>-1\<close> with the buffer untouched, or
  the number of moves written, which are legal and lead from the start to a solved
  board.
\<close>

definition solved_by :: "PuzzleState \<Rightarrow> (nat \<Rightarrow> uint8) \<Rightarrow> int \<times> (nat \<Rightarrow> uint8) \<Rightarrow> bool" where
  "solved_by start moves_out ro =
     ((fst ro = -1 \<and> snd ro = moves_out) \<or>
      (\<exists>am st. fst ro = int (length am) \<and> snd ro = write_moves am moves_out \<and>
         legal_moves start am \<and> apply_moves start am = Inr st \<and> isSolved st))"

lemma finish_solved:
  assumes "legal_moves start (s_all_moves S)" "apply_moves start (s_all_moves S) = Inr (s_cur S)"
    and "locked_path L (s_cur S) ms" "apply_moves (s_cur S) ms = Inr st" "isSolved st"
  shows "\<exists>ro. finish S ms moves_out = Inr ro \<and> solved_by start moves_out ro"
proof -
  from assms(1,2) locked_path_legal [OF assms(3)]
  have "legal_moves start (s_all_moves S @ ms)" by (rule legal_moves_append)
  moreover from assms(2,4) have "apply_moves start (s_all_moves S @ ms) = Inr st"
    by (simp add: apply_moves_append)
  ultimately have "solved_by start moves_out
      (int (length (s_all_moves S @ ms)), write_moves (s_all_moves S @ ms) moves_out)"
    using assms(5) unfolding solved_by_def by (intro disjI2 exI [of _ "s_all_moves S @ ms"]) auto
  with assms(4) show ?thesis by (simp add: finish_def Let_def)
qed

lemma stage1_loop_from_start:
  assumes "perm_board start" "size' start = sz" "pdb_built G" "m \<le> nat (sz * sz) - 1"
  shows "stage1_loop G clk sz md nl tlim m \<lparr>s_cur = start, s_locked = {}, s_all_moves = []\<rparr> =
           Inr None \<or>
         (\<exists>S. stage1_loop G clk sz md nl tlim m \<lparr>s_cur = start, s_locked = {}, s_all_moves = []\<rparr> =
                 Inr (Some S) \<and>
              stage_inv sz S \<and> legal_moves start (s_all_moves S) \<and>
              apply_moves start (s_all_moves S) = Inr (s_cur S))"
  using assms(4)
proof (induction m)
  case 0
  from stage_inv_init [OF assms(1,2)] show ?case by simp
next
  case (Suc m)
  let ?S0 = "\<lparr>s_cur = start, s_locked = {}, s_all_moves = []\<rparr>"
  from Suc.prems have m: "m \<le> nat (sz * sz) - 1" "m < nat (sz * sz) - 1" by simp_all
  from Suc.IH [OF m(1)] show ?case
  proof
    assume "stage1_loop G clk sz md nl tlim m ?S0 = Inr None"
    then show ?thesis by simp
  next
    assume "\<exists>S. stage1_loop G clk sz md nl tlim m ?S0 = Inr (Some S) \<and> stage_inv sz S \<and>
        legal_moves start (s_all_moves S) \<and> apply_moves start (s_all_moves S) = Inr (s_cur S)"
    then obtain S where S: "stage1_loop G clk sz md nl tlim m ?S0 = Inr (Some S)" "stage_inv sz S"
      "legal_moves start (s_all_moves S)" "apply_moves start (s_all_moves S) = Inr (s_cur S)"
      by blast
    from stage1_step_cases [OF S(2) assms(3) m(2), of clk md nl tlim] show ?thesis
    proof
      assume "stage1_step G clk sz md nl tlim m S = Inr None"
      with S(1) show ?thesis by simp
    next
      assume "\<exists>S' ms. stage1_step G clk sz md nl tlim m S = Inr (Some S') \<and>
          s_locked S' = insert (int m) (s_locked S) \<and> s_all_moves S' = s_all_moves S @ ms \<and>
          locked_path (s_locked S) (s_cur S) ms \<and> apply_moves (s_cur S) ms = Inr (s_cur S') \<and>
          stage_inv sz S'"
      then obtain S' ms where S': "stage1_step G clk sz md nl tlim m S = Inr (Some S')"
        "s_all_moves S' = s_all_moves S @ ms" "locked_path (s_locked S) (s_cur S) ms"
        "apply_moves (s_cur S) ms = Inr (s_cur S')" "stage_inv sz S'" by blast
      from S(3,4) locked_path_legal [OF S'(3)]
      have "legal_moves start (s_all_moves S @ ms)" by (rule legal_moves_append)
      with S S' show ?thesis by (simp add: apply_moves_append)
    qed
  qed
qed

lemma pdb_built_4x4:
  assumes "pdb_built G"
  shows "\<exists>G'. (if pdb_4x4_stage1 G = Map.empty
              then map_sum id (\<lambda>p. G\<lparr>pdb_4x4_stage1 := p\<rparr>) (build_pdb 4 6 (pdb_4x4_stage1 G) 14)
              else Inr G) = Inr G' \<and> pdb_built G'"
  using assms by (auto simp: build_pdb_single pdb_built_def)

lemma pdb_built_5x5:
  assumes "pdb_built G"
  shows "\<exists>G'. (if pdb_5x5_stage1 G = Map.empty
              then map_sum id (\<lambda>p. G\<lparr>pdb_5x5_stage1 := p\<rparr>) (build_pdb 5 12 (pdb_5x5_stage1 G) 16)
              else Inr G) = Inr G' \<and> pdb_built G'"
  using assms by (auto simp: build_pdb_single pdb_built_def)

lemma endgame_ida:
  assumes "stage_inv sz S" "legal_moves start (s_all_moves S)"
    "apply_moves start (s_all_moves S) = Inr (s_cur S)"
    and "r_success (ida_star G c (s_cur S) sz md 2 nl tlim (s_locked S))"
  shows "\<exists>ro. finish S (r_moves (ida_star G c (s_cur S) sz md 2 nl tlim (s_locked S))) moves_out =
                Inr ro \<and> solved_by start moves_out ro"
proof -
  from assms(1) have w: "wf_board (s_cur S)" "size' (s_cur S) = sz"
    by (simp_all add: stage_inv_def perm_board_def)
  from ida_star_path [OF assms(4) w] obtain st where
    "locked_path (s_locked S) (s_cur S) (r_moves (ida_star G c (s_cur S) sz md 2 nl tlim (s_locked S)))"
    "apply_moves (s_cur S) (r_moves (ida_star G c (s_cur S) sz md 2 nl tlim (s_locked S))) = Inr st"
    "isSolved st" by auto
  from finish_solved [OF assms(2,3) this] show ?thesis .
qed

lemma endgame_bibfs:
  assumes "stage_inv sz S" "legal_moves start (s_all_moves S)"
    "apply_moves start (s_all_moves S) = Inr (s_cur S)" "sz = 4 \<or> sz = 5"
    and "r_success (bibfs (s_cur S) sz md 2 nl (s_locked S))"
  shows "\<exists>ro. finish S (r_moves (bibfs (s_cur S) sz md 2 nl (s_locked S))) moves_out = Inr ro \<and>
              solved_by start moves_out ro"
proof -
  from assms(1) have w: "wf_board (s_cur S)" "size' (s_cur S) = sz"
    by (simp_all add: stage_inv_def perm_board_def)
  from bibfs_path [OF assms(5) w] obtain st where
    st: "locked_path (s_locked S) (s_cur S) (r_moves (bibfs (s_cur S) sz md 2 nl (s_locked S)))"
    "apply_moves (s_cur S) (r_moves (bibfs (s_cur S) sz md 2 nl (s_locked S))) = Inr st"
    "size' st = sz" "tiles st = tiles (goal_state sz)" by auto
  from isSolved_goal_state [OF assms(4) st(4,3)] have "isSolved st" .
  from finish_solved [OF assms(2,3) st(1,2) this] show ?thesis .
qed

lemma solve_4x4_result:
  assumes "perm_board start" "size' start = 4" "pdb_built G"
  shows "\<exists>ro G'. solve_4x4 G clk start moves_out = Inr (ro, G') \<and> pdb_built G' \<and>
           solved_by start moves_out ro"
proof -
  from pdb_built_4x4 [OF assms(3)] obtain G' where
    G': "(if pdb_4x4_stage1 G = Map.empty
          then map_sum id (\<lambda>p. G\<lparr>pdb_4x4_stage1 := p\<rparr>) (build_pdb 4 6 (pdb_4x4_stage1 G) 14)
          else Inr G) = Inr G'" "pdb_built G'" by blast
  let ?S0 = "\<lparr>s_cur = start, s_locked = {}, s_all_moves = []\<rparr>"
  have fail: "solved_by start moves_out (-1, moves_out)" by (simp add: solved_by_def)
  have "(6::nat) \<le> nat (4 * 4) - 1" by simp
  from stage1_loop_from_start [OF assms(1,2) G'(2) this, of clk 18 300000 4000] show ?thesis
  proof
    assume "stage1_loop G' clk 4 18 300000 4000 6 ?S0 = Inr None"
    with G' fail show ?thesis by (simp add: solve_4x4_def)
  next
    assume "\<exists>S. stage1_loop G' clk 4 18 300000 4000 6 ?S0 = Inr (Some S) \<and> stage_inv 4 S \<and>
        legal_moves start (s_all_moves S) \<and> apply_moves start (s_all_moves S) = Inr (s_cur S)"
    then obtain S where S: "stage1_loop G' clk 4 18 300000 4000 6 ?S0 = Inr (Some S)"
      "stage_inv 4 S" "legal_moves start (s_all_moves S)"
      "apply_moves start (s_all_moves S) = Inr (s_cur S)" by blast
    let ?res2 = "ida_star G' (clk 6) (s_cur S) 4 40 2 800000 16000 (s_locked S)"
    let ?res3 = "bibfs (s_cur S) 4 40 2 200000 (s_locked S)"
    show ?thesis
    proof (cases "r_success ?res2")
      case True
      from endgame_ida [OF S(2,3,4) True, of moves_out] G' S(1) True show ?thesis
        by (auto simp: solve_4x4_def Let_def)
    next
      case f2: False
      show ?thesis
      proof (cases "r_success ?res3")
        case True
        from endgame_bibfs [OF S(2,3,4) _ True, of moves_out] G' S(1) f2 True show ?thesis
          by (auto simp: solve_4x4_def Let_def)
      next
        case False
        with f2 G' S(1) fail show ?thesis by (simp add: solve_4x4_def Let_def)
      qed
    qed
  qed
qed

lemma thread_ida_search_eq:
  "thread_ida_search G c s sz md stage nl tlim L = ida_star G c s sz md stage nl tlim L"
  by (simp add: thread_ida_search_def Let_def)

lemma solve_5x5_result:
  assumes "perm_board start" "size' start = 5" "pdb_built G"
  shows "\<exists>ro G'. solve_5x5 G clk start moves_out = Inr (ro, G') \<and> pdb_built G' \<and>
           solved_by start moves_out ro"
proof -
  from pdb_built_5x5 [OF assms(3)] obtain G' where
    G': "(if pdb_5x5_stage1 G = Map.empty
          then map_sum id (\<lambda>p. G\<lparr>pdb_5x5_stage1 := p\<rparr>) (build_pdb 5 12 (pdb_5x5_stage1 G) 16)
          else Inr G) = Inr G'" "pdb_built G'" by blast
  let ?S0 = "\<lparr>s_cur = start, s_locked = {}, s_all_moves = []\<rparr>"
  have fail: "solved_by start moves_out (-1, moves_out)" by (simp add: solved_by_def)
  have "(12::nat) \<le> nat (5 * 5) - 1" by simp
  from stage1_loop_from_start [OF assms(1,2) G'(2) this, of clk 25 250000 3000] show ?thesis
  proof
    assume "stage1_loop G' clk 5 25 250000 3000 12 ?S0 = Inr None"
    with G' fail show ?thesis by (simp add: solve_5x5_def)
  next
    assume "\<exists>S. stage1_loop G' clk 5 25 250000 3000 12 ?S0 = Inr (Some S) \<and> stage_inv 5 S \<and>
        legal_moves start (s_all_moves S) \<and> apply_moves start (s_all_moves S) = Inr (s_cur S)"
    then obtain S where S: "stage1_loop G' clk 5 25 250000 3000 12 ?S0 = Inr (Some S)"
      "stage_inv 5 S" "legal_moves start (s_all_moves S)"
      "apply_moves start (s_all_moves S) = Inr (s_cur S)" by blast
    let ?results = "map (\<lambda>t. thread_ida_search G' (clk (12 + t)) (s_cur S) 5 60 2 400000 9000
        (s_locked S)) [0..<4]"
    let ?res3 = "bibfs (s_cur S) 5 60 2 400000 (s_locked S)"
    show ?thesis
    proof (cases "find r_success ?results")
      case (Some res)
      then obtain t where t: "res = ida_star G' (clk (12 + t)) (s_cur S) 5 60 2 400000 9000 (s_locked S)"
        "r_success res"
        by (auto simp: find_Some_iff thread_ida_search_eq nth_append)
      from t(2) have "r_success (ida_star G' (clk (12 + t)) (s_cur S) 5 60 2 400000 9000 (s_locked S))"
        unfolding t(1) .
      from endgame_ida [OF S(2,3,4) this, of moves_out] t(1) obtain ro where
        "finish S (r_moves res) moves_out = Inr ro" "solved_by start moves_out ro" by auto
      with Some G' S(1) show ?thesis by (simp add: solve_5x5_def Let_def)
    next
      case None
      show ?thesis
      proof (cases "r_success ?res3")
        case True
        from endgame_bibfs [OF S(2,3,4) _ True, of moves_out] G' S(1) None True show ?thesis
          by (auto simp: solve_5x5_def Let_def)
      next
        case False
        with None G' S(1) fail show ?thesis by (simp add: solve_5x5_def Let_def)
      qed
    qed
  qed
qed

text \<open>
  What a search hands to the solver (its moves when it succeeded), and what the solver
  hands to its caller for that: \<open>-1\<close> and an untouched buffer, or the number of moves
  and the buffer holding them.
\<close>

definition found_moves :: "IDAResult \<Rightarrow> uint8 list option" where
  "found_moves res = (if r_success res then Some (r_moves res) else None)"

fun emitted :: "uint8 list option \<Rightarrow> (nat \<Rightarrow> uint8) \<Rightarrow> int \<times> (nat \<Rightarrow> uint8)" where
  "emitted None moves_out = (-1, moves_out)"
| "emitted (Some ms) moves_out = (int (length ms), write_moves ms moves_out)"

lemma finish_emitted:
  "apply_moves (s_cur S) ms = Inr st \<Longrightarrow>
   finish S ms moves_out = Inr (emitted (Some (s_all_moves S @ ms)) moves_out)"
  by (simp add: finish_def Let_def)

lemma isSolved_nth:
  assumes "isSolved s" "i < nat (size' s * size' s) - 1"
  shows "uint (tiles s ! i) = int i + 1"
proof -
  from assms have "unat (tiles s ! i) = i + 1" by (simp add: isSolved_def Let_def list_all_iff)
  then have "int (unat (tiles s ! i)) = int (i + 1)" by simp
  then show ?thesis by simp
qed

text \<open>On a solved board every stage only locks its cell.\<close>

lemma stage1_step_solved:
  assumes "isSolved (s_cur S)" "size' (s_cur S) = sz" "i < nat (sz * sz) - 1"
  shows "stage1_step G clk sz md nl tlim i S =
           Inr (Some (S\<lparr>s_locked := insert (int i) (s_locked S)\<rparr>))"
  using isSolved_nth [OF assms(1), of i] assms(2,3) by (simp add: stage1_step_def)

lemma stage1_loop_solved:
  assumes "stage1_loop G clk sz md nl tlim k S0 = Inr (Some S)" "isSolved (s_cur S)"
    "size' (s_cur S) = sz" "k + d \<le> nat (sz * sz) - 1"
  shows "\<exists>S'. stage1_loop G clk sz md nl tlim (k + d) S0 = Inr (Some S') \<and>
              s_cur S' = s_cur S \<and> s_all_moves S' = s_all_moves S"
  using assms(4)
proof (induction d)
  case 0
  with assms(1) show ?case by simp
next
  case (Suc d)
  then obtain S' where S': "stage1_loop G clk sz md nl tlim (k + d) S0 = Inr (Some S')"
    "s_cur S' = s_cur S" "s_all_moves S' = s_all_moves S" by auto
  from Suc.prems have "k + d < nat (sz * sz) - 1" by simp
  with assms(2,3) S'(2)
  have "stage1_step G clk sz md nl tlim (k + d) S' =
      Inr (Some (S'\<lparr>s_locked := insert (int (k + d)) (s_locked S')\<rparr>))"
    by (intro stage1_step_solved) simp_all
  with S' show ?case by simp
qed

lemma stage1_loop_None:
  "stage1_loop G clk sz md nl tlim k S0 = Inr None \<Longrightarrow>
   stage1_loop G clk sz md nl tlim (k + d) S0 = Inr None"
  by (induction d) simp_all

text \<open>While the prefix tiles are in place the stages only lock their cells.\<close>

lemma stage1_loop_placed:
  assumes "\<forall>j<k. uint (tiles start ! j) = int j + 1"
  shows "stage1_loop G clk sz md nl tlim k \<lparr>s_cur = start, s_locked = {}, s_all_moves = []\<rparr> =
           Inr (Some \<lparr>s_cur = start, s_locked = int ` {0..<k}, s_all_moves = []\<rparr>)"
  using assms by (induction k) (simp_all add: stage1_step_def atLeast0_lessThan_Suc)

text \<open>
  A successful stage-1 search ends on a solved board: its goal test is \<open>h == 0\<close>, and
  \<open>h\<close> is the Manhattan distance of the whole board.
\<close>

lemma stage1_search_solved:
  assumes "perm_board start" "size' start = sz" "pdb_built G"
    and "r_success (ida_star G c start sz md 1 nl tlim L)"
  shows "\<exists>st. apply_moves start (r_moves (ida_star G c start sz md 1 nl tlim L)) = Inr st \<and>
              isSolved st \<and> size' st = sz"
proof -
  let ?ms = "r_moves (ida_star G c start sz md 1 nl tlim L)"
  from assms(1) have w: "wf_board start" by (simp add: perm_board_def)
  from ida_star_path [OF assms(4) w assms(2)] obtain st where
    lp: "locked_path L start ?ms" and a: "apply_moves start ?ms = Inr st"
    and sz: "size' st = sz" and h: "pdb_heuristic G st 1 sz = 0" by auto
  from perm_board_apply_moves [OF assms(1) locked_path_legal [OF lp] a] have p: "perm_board st" ..
  then have "distinct (tiles st)" by (simp add: perm_board_def wf_board_def)
  from pdb_heuristic_manhattan [OF assms(3) this, of 1 sz] h have "manhattan st = 0" by simp
  with manhattan_zero [OF p] a sz show ?thesis by simp
qed

text \<open>From a solved board the stage-2 search succeeds at its root, with no move.\<close>

lemma ida_star_solved:
  assumes "isSolved s" "0 < nl"
  shows "ida_star G c s sz md 2 nl tlim L =
           \<lparr>r_moves = [], r_success = True, r_nodes = 1, r_length = 0, r_fail_reason = []\<rparr>"
  using assms
  by (simp add: ida_star_def ida_loop.simps [of c tlim s 0] dfs.simps [of _ s 0 "- 1"]
      heuristic_def Let_def)

text \<open>
  The stage loop from the input board. Let \<open>i\<close> be the first stage whose tile is not in
  place. If its search fails the loop gives up; if it succeeds the loop ends on a
  solved board with the moves of that search.
\<close>

lemma stage1_loop_search:
  assumes "perm_board start" "size' start = sz" "pdb_built G" "m \<le> nat (sz * sz) - 1" "i < m"
    and "\<forall>j<i. uint (tiles start ! j) = int j + 1" "uint (tiles start ! i) \<noteq> int i + 1"
  shows "\<not> r_success (ida_star G (clk i) start sz md 1 nl tlim (int ` {0..<i})) \<Longrightarrow>
           stage1_loop G clk sz md nl tlim m \<lparr>s_cur = start, s_locked = {}, s_all_moves = []\<rparr> =
             Inr None"
    and "r_success (ida_star G (clk i) start sz md 1 nl tlim (int ` {0..<i})) \<Longrightarrow>
           \<exists>S. stage1_loop G clk sz md nl tlim m \<lparr>s_cur = start, s_locked = {}, s_all_moves = []\<rparr> =
                 Inr (Some S) \<and> isSolved (s_cur S) \<and> size' (s_cur S) = sz \<and>
               s_all_moves S = r_moves (ida_star G (clk i) start sz md 1 nl tlim (int ` {0..<i}))"
proof -
  let ?S0 = "\<lparr>s_cur = start, s_locked = {}, s_all_moves = []\<rparr>"
  let ?Si = "\<lparr>s_cur = start, s_locked = int ` {0..<i}, s_all_moves = []\<rparr>"
  let ?res = "ida_star G (clk i) start sz md 1 nl tlim (int ` {0..<i})"
  from assms(5) have m: "m = Suc i + (m - Suc i)" by simp
  have li: "stage1_loop G clk sz md nl tlim i ?S0 = Inr (Some ?Si)"
    using assms(6) by (rule stage1_loop_placed)
  {
    assume "\<not> r_success ?res"
    with li assms(7) have "stage1_loop G clk sz md nl tlim (Suc i) ?S0 = Inr None"
      by (simp add: stage1_step_def)
    from stage1_loop_None [OF this, of "m - Suc i"] m
    show "stage1_loop G clk sz md nl tlim m ?S0 = Inr None" by simp
  }
  {
    assume s: "r_success ?res"
    from stage1_search_solved [OF assms(1,2,3) s] obtain st where
      st: "apply_moves start (r_moves ?res) = Inr st" "isSolved st" "size' st = sz" by blast
    let ?S' = "\<lparr>s_cur = st, s_locked = insert (int i) (int ` {0..<i}), s_all_moves = r_moves ?res\<rparr>"
    from li assms(7) s st(1) have l: "stage1_loop G clk sz md nl tlim (Suc i) ?S0 = Inr (Some ?S')"
      by (simp add: stage1_step_def)
    from m assms(4) have "Suc i + (m - Suc i) \<le> nat (sz * sz) - 1" by simp
    from stage1_loop_solved [OF l _ _ this] st(2,3) m
    show "\<exists>S. stage1_loop G clk sz md nl tlim m ?S0 = Inr (Some S) \<and> isSolved (s_cur S) \<and>
        size' (s_cur S) = sz \<and> s_all_moves S = r_moves ?res"
      by auto
  }
qed

lemma upt_4: "[0..<4] = [0, 1, 2, 3]"
  by code_simp

text \<open>
  The result of \<open>solve_4x4\<close> and \<open>solve_5x5\<close> in terms of the searches they run on the
  input board. When a prefix tile is out of place, the search of the first such stage
  decides: it solves the whole board or the solver gives up. When every prefix tile is
  in place, the end-game searches decide.
\<close>

lemma solve_4x4_outcome:
  assumes "perm_board start" "size' start = 4" "pdb_built G"
  shows "\<exists>G'. pdb_built G' \<and>
     (\<forall>i<6. (\<forall>j<i. uint (tiles start ! j) = int j + 1) \<and> uint (tiles start ! i) \<noteq> int i + 1 \<longrightarrow>
        solve_4x4 G clk start moves_out =
          Inr (emitted (found_moves (ida_star G' (clk i) start 4 18 1 300000 4000 (int ` {0..<i})))
                 moves_out, G')) \<and>
     ((\<forall>j<6. uint (tiles start ! j) = int j + 1) \<longrightarrow>
        solve_4x4 G clk start moves_out =
          Inr (emitted (case found_moves (ida_star G' (clk 6) start 4 40 2 800000 16000 (int ` {0..<6})) of
                          Some ms \<Rightarrow> Some ms
                        | None \<Rightarrow> found_moves (bibfs start 4 40 2 200000 (int ` {0..<6})))
                 moves_out, G'))"
proof -
  from pdb_built_4x4 [OF assms(3)] obtain G' where
    G': "(if pdb_4x4_stage1 G = Map.empty
          then map_sum id (\<lambda>p. G\<lparr>pdb_4x4_stage1 := p\<rparr>) (build_pdb 4 6 (pdb_4x4_stage1 G) 14)
          else Inr G) = Inr G'" "pdb_built G'" by blast
  let ?S0 = "\<lparr>s_cur = start, s_locked = {}, s_all_moves = []\<rparr>"
  from assms(1) have w: "wf_board start" by (simp add: perm_board_def)
  have m: "(6::nat) \<le> nat (4 * 4) - 1" by simp
  have a: "solve_4x4 G clk start moves_out =
      Inr (emitted (found_moves (ida_star G' (clk i) start 4 18 1 300000 4000 (int ` {0..<i})))
             moves_out, G')"
    if i: "i < 6" "\<forall>j<i. uint (tiles start ! j) = int j + 1" "uint (tiles start ! i) \<noteq> int i + 1"
    for i
  proof (cases "r_success (ida_star G' (clk i) start 4 18 1 300000 4000 (int ` {0..<i}))")
    case False
    from stage1_loop_search(1) [where clk = clk, OF assms(1,2) G'(2) m i False]
    have "stage1_loop G' clk 4 18 300000 4000 6 ?S0 = Inr None" .
    with G'(1) False show ?thesis by (simp add: solve_4x4_def found_moves_def)
  next
    case True
    from stage1_loop_search(2) [where clk = clk, OF assms(1,2) G'(2) m i True] obtain S where
      S: "stage1_loop G' clk 4 18 300000 4000 6 ?S0 = Inr (Some S)" "isSolved (s_cur S)"
      "s_all_moves S = r_moves (ida_star G' (clk i) start 4 18 1 300000 4000 (int ` {0..<i}))"
      by blast
    have r2: "ida_star G' (clk 6) (s_cur S) 4 40 2 800000 16000 (s_locked S) =
        \<lparr>r_moves = [], r_success = True, r_nodes = 1, r_length = 0, r_fail_reason = []\<rparr>"
      using S(2) by (rule ida_star_solved) simp
    have "finish S [] moves_out = Inr (emitted (Some (s_all_moves S @ [])) moves_out)"
      by (rule finish_emitted) simp
    with G'(1) S(1,3) r2 True show ?thesis
      by (simp add: solve_4x4_def found_moves_def Let_def)
  qed
  have b: "solve_4x4 G clk start moves_out =
      Inr (emitted (case found_moves (ida_star G' (clk 6) start 4 40 2 800000 16000 (int ` {0..<6})) of
                      Some ms \<Rightarrow> Some ms
                    | None \<Rightarrow> found_moves (bibfs start 4 40 2 200000 (int ` {0..<6})))
             moves_out, G')"
    if p: "\<forall>j<6. uint (tiles start ! j) = int j + 1"
  proof -
    let ?Sm = "\<lparr>s_cur = start, s_locked = int ` {0..<6}, s_all_moves = []\<rparr>"
    let ?res2 = "ida_star G' (clk 6) start 4 40 2 800000 16000 (int ` {0..<6})"
    let ?res3 = "bibfs start 4 40 2 200000 (int ` {0..<6})"
    from p have l: "stage1_loop G' clk 4 18 300000 4000 6 ?S0 = Inr (Some ?Sm)"
      by (rule stage1_loop_placed)
    show ?thesis
    proof (cases "r_success ?res2")
      case True
      from ida_star_path [OF True w assms(2)] obtain st where
        "apply_moves (s_cur ?Sm) (r_moves ?res2) = Inr st" by auto
      from finish_emitted [OF this, of moves_out] G'(1) l True show ?thesis
        by (simp add: solve_4x4_def found_moves_def Let_def)
    next
      case f2: False
      show ?thesis
      proof (cases "r_success ?res3")
        case True
        from bibfs_path [OF True w assms(2)] obtain st where
          "apply_moves (s_cur ?Sm) (r_moves ?res3) = Inr st" by auto
        from finish_emitted [OF this, of moves_out] G'(1) l f2 True show ?thesis
          by (simp add: solve_4x4_def found_moves_def Let_def)
      next
        case False
        with G'(1) l f2 show ?thesis by (simp add: solve_4x4_def found_moves_def Let_def)
      qed
    qed
  qed
  from G'(2) a b show ?thesis by blast
qed

lemma solve_5x5_outcome:
  assumes "perm_board start" "size' start = 5" "pdb_built G"
  shows "\<exists>G'. pdb_built G' \<and>
     (\<forall>i<12. (\<forall>j<i. uint (tiles start ! j) = int j + 1) \<and> uint (tiles start ! i) \<noteq> int i + 1 \<longrightarrow>
        solve_5x5 G clk start moves_out =
          Inr (emitted (found_moves (ida_star G' (clk i) start 5 25 1 250000 3000 (int ` {0..<i})))
                 moves_out, G')) \<and>
     ((\<forall>j<12. uint (tiles start ! j) = int j + 1) \<longrightarrow>
        solve_5x5 G clk start moves_out =
          Inr (emitted (case find r_success
                               (map (\<lambda>t. thread_ida_search G' (clk (12 + t)) start 5 60 2 400000 9000
                                            (int ` {0..<12})) [0..<4]) of
                          Some res \<Rightarrow> Some (r_moves res)
                        | None \<Rightarrow> found_moves (bibfs start 5 60 2 400000 (int ` {0..<12})))
                 moves_out, G'))"
proof -
  from pdb_built_5x5 [OF assms(3)] obtain G' where
    G': "(if pdb_5x5_stage1 G = Map.empty
          then map_sum id (\<lambda>p. G\<lparr>pdb_5x5_stage1 := p\<rparr>) (build_pdb 5 12 (pdb_5x5_stage1 G) 16)
          else Inr G) = Inr G'" "pdb_built G'" by blast
  let ?S0 = "\<lparr>s_cur = start, s_locked = {}, s_all_moves = []\<rparr>"
  from assms(1) have w: "wf_board start" by (simp add: perm_board_def)
  have m: "(12::nat) \<le> nat (5 * 5) - 1" by simp
  have a: "solve_5x5 G clk start moves_out =
      Inr (emitted (found_moves (ida_star G' (clk i) start 5 25 1 250000 3000 (int ` {0..<i})))
             moves_out, G')"
    if i: "i < 12" "\<forall>j<i. uint (tiles start ! j) = int j + 1" "uint (tiles start ! i) \<noteq> int i + 1"
    for i
  proof (cases "r_success (ida_star G' (clk i) start 5 25 1 250000 3000 (int ` {0..<i}))")
    case False
    from stage1_loop_search(1) [where clk = clk, OF assms(1,2) G'(2) m i False]
    have "stage1_loop G' clk 5 25 250000 3000 12 ?S0 = Inr None" .
    with G'(1) False show ?thesis by (simp add: solve_5x5_def found_moves_def)
  next
    case True
    from stage1_loop_search(2) [where clk = clk, OF assms(1,2) G'(2) m i True] obtain S where
      S: "stage1_loop G' clk 5 25 250000 3000 12 ?S0 = Inr (Some S)" "isSolved (s_cur S)"
      "s_all_moves S = r_moves (ida_star G' (clk i) start 5 25 1 250000 3000 (int ` {0..<i}))"
      by blast
    have r2: "thread_ida_search G' c (s_cur S) 5 60 2 400000 9000 (s_locked S) =
        \<lparr>r_moves = [], r_success = True, r_nodes = 1, r_length = 0, r_fail_reason = []\<rparr>" for c
      unfolding thread_ida_search_eq using S(2) by (rule ida_star_solved) simp
    have "finish S [] moves_out = Inr (emitted (Some (s_all_moves S @ [])) moves_out)"
      by (rule finish_emitted) simp
    with G'(1) S(1,3) r2 True show ?thesis
      by (simp add: solve_5x5_def found_moves_def Let_def upt_4)
  qed
  have b: "solve_5x5 G clk start moves_out =
      Inr (emitted (case find r_success
                           (map (\<lambda>t. thread_ida_search G' (clk (12 + t)) start 5 60 2 400000 9000
                                        (int ` {0..<12})) [0..<4]) of
                      Some res \<Rightarrow> Some (r_moves res)
                    | None \<Rightarrow> found_moves (bibfs start 5 60 2 400000 (int ` {0..<12})))
             moves_out, G')"
    if p: "\<forall>j<12. uint (tiles start ! j) = int j + 1"
  proof -
    let ?Sm = "\<lparr>s_cur = start, s_locked = int ` {0..<12}, s_all_moves = []\<rparr>"
    let ?results = "map (\<lambda>t. thread_ida_search G' (clk (12 + t)) start 5 60 2 400000 9000
        (int ` {0..<12})) [0..<4]"
    let ?res3 = "bibfs start 5 60 2 400000 (int ` {0..<12})"
    from p have l: "stage1_loop G' clk 5 25 250000 3000 12 ?S0 = Inr (Some ?Sm)"
      by (rule stage1_loop_placed)
    show ?thesis
    proof (cases "find r_success ?results")
      case (Some res)
      then obtain t where t: "res = ida_star G' (clk (12 + t)) start 5 60 2 400000 9000 (int ` {0..<12})"
        "r_success res"
        by (auto simp: find_Some_iff thread_ida_search_eq nth_append)
      from t(2) have "r_success (ida_star G' (clk (12 + t)) start 5 60 2 400000 9000 (int ` {0..<12}))"
        unfolding t(1) .
      from ida_star_path [OF this w assms(2)] t(1) obtain st where
        "apply_moves (s_cur ?Sm) (r_moves res) = Inr st" by auto
      from finish_emitted [OF this, of moves_out] G'(1) l Some show ?thesis
        by (simp add: solve_5x5_def Let_def)
    next
      case None
      show ?thesis
      proof (cases "r_success ?res3")
        case True
        from bibfs_path [OF True w assms(2)] obtain st where
          "apply_moves (s_cur ?Sm) (r_moves ?res3) = Inr st" by auto
        from finish_emitted [OF this, of moves_out] G'(1) l None True show ?thesis
          by (simp add: solve_5x5_def found_moves_def Let_def)
      next
        case False
        with G'(1) l None show ?thesis by (simp add: solve_5x5_def found_moves_def Let_def)
      qed
    qed
  qed
  from G'(2) a b show ?thesis by blast
qed

lemma PuzzleState_arr_nth:
  "j < nat (sz * sz) \<Longrightarrow> tiles (PuzzleState_arr e0 arr sz) ! j = arr ! j"
  by (simp add: PuzzleState_arr_def Let_def)

text \<open>
  Claim C1. For an input of size 4 or 5 whose \<open>size*size\<close> bytes are all below
  \<open>size*size\<close> (so that validation is defined), with the tables as the program can
  have them, \<open>solve_puzzle\<close> returns without fault, and: an input that fails validation
  gives \<open>-1\<close> and no write; a valid, already solved input gives 0 and no write; a valid,
  unsolved input gives either \<open>-1\<close> and no write or a positive count \<open>r\<close>, and then
  the \<open>r\<close> bytes written are moves that are legal one after the other from the input
  board and \<open>validate_solution\<close> on them returns 1: replayed from the input board they
  yield the solved board. The tables stay as the program can have them.

  Which of the two it is, is decided by the searches on the input board. Let the prefix
  be the tiles \<open>1..6\<close> (size 4) or \<open>1..12\<close> (size 5). If tile \<open>i+1\<close> is the first
  prefix tile off its cell, the stage-1 search of that stage, with cells \<open>0..i-1\<close>
  locked, decides: when it succeeds the count is the number of its moves and the buffer
  holds them, when it fails the result is \<open>-1\<close>. If the whole prefix is in place, the
  end-game searches with the prefix cells locked decide: the first that succeeds (for
  size 4 \<open>ida_star\<close>, then \<open>bibfs\<close>; for size 5 the four workers in order, then
  \<open>bibfs\<close>) gives the count and the moves, and the result is \<open>-1\<close> exactly when all
  of them fail.
\<close>

theorem solve_puzzle_correct:
  assumes "sz = 4 \<or> sz = 5" "sz * sz \<le> int (length arr)" "pdb_built G"
    and "\<forall>t \<in> set (take (nat (sz * sz)) arr). unat t < nat (sz * sz)"
  shows "\<exists>r out G'.
           solve_puzzle G clk e0 arr sz moves_out = Inr ((r, out), G') \<and> pdb_built G' \<and>
           (validate_input (PuzzleState_arr e0 arr sz) = Inr False \<longrightarrow> r = -1 \<and> out = moves_out) \<and>
           (validate_input (PuzzleState_arr e0 arr sz) = Inr True \<longrightarrow>
              (isSolved (PuzzleState_arr e0 arr sz) \<longrightarrow> r = 0 \<and> out = moves_out) \<and>
              (\<not> isSolved (PuzzleState_arr e0 arr sz) \<longrightarrow>
                 ((r = -1 \<and> out = moves_out) \<or>
                  (0 < r \<and> legal_moves (PuzzleState_arr e0 arr sz) (map out [0..<nat r]) \<and>
                   validate_solution e0 arr sz (map out [0..<nat r]) r = Inr 1)) \<and>
                 (sz = 4 \<longrightarrow>
                    (\<forall>i<6. (\<forall>j<i. uint (arr ! j) = int j + 1) \<and> uint (arr ! i) \<noteq> int i + 1 \<longrightarrow>
                       (r, out) =
                         emitted (found_moves (ida_star G' (clk i) (PuzzleState_arr e0 arr sz)
                                                 4 18 1 300000 4000 (int ` {0..<i}))) moves_out) \<and>
                    ((\<forall>j<6. uint (arr ! j) = int j + 1) \<longrightarrow>
                       (r, out) =
                         emitted (case found_moves (ida_star G' (clk 6) (PuzzleState_arr e0 arr sz)
                                                      4 40 2 800000 16000 (int ` {0..<6})) of
                                    Some ms \<Rightarrow> Some ms
                                  | None \<Rightarrow> found_moves (bibfs (PuzzleState_arr e0 arr sz)
                                                           4 40 2 200000 (int ` {0..<6})))
                           moves_out)) \<and>
                 (sz = 5 \<longrightarrow>
                    (\<forall>i<12. (\<forall>j<i. uint (arr ! j) = int j + 1) \<and> uint (arr ! i) \<noteq> int i + 1 \<longrightarrow>
                       (r, out) =
                         emitted (found_moves (ida_star G' (clk i) (PuzzleState_arr e0 arr sz)
                                                 5 25 1 250000 3000 (int ` {0..<i}))) moves_out) \<and>
                    ((\<forall>j<12. uint (arr ! j) = int j + 1) \<longrightarrow>
                       (r, out) =
                         emitted (case find r_success
                                         (map (\<lambda>t. thread_ida_search G' (clk (12 + t))
                                                      (PuzzleState_arr e0 arr sz) 5 60 2 400000 9000
                                                      (int ` {0..<12})) [0..<4]) of
                                    Some res \<Rightarrow> Some (r_moves res)
                                  | None \<Rightarrow> found_moves (bibfs (PuzzleState_arr e0 arr sz)
                                                           5 60 2 400000 (int ` {0..<12})))
                           moves_out))))"
proof -
  let ?s = "PuzzleState_arr e0 arr sz"
  have l: "length (tiles ?s) = nat (size' ?s * size' ?s)"
    using assms(2) by (simp add: PuzzleState_arr_def Let_def)
  have "\<forall>t \<in> set (tiles ?s). unat t < length (tiles ?s)"
    using assms(2,4) by (simp add: PuzzleState_arr_def Let_def)
  with validate_input_total [OF l] obtain ok where ok: "validate_input ?s = Inr ok" by blast
  from assms(1) have sz: "0 < sz" "sz \<noteq> 0" by auto
  show ?thesis
  proof (cases "ok \<and> \<not> isSolved ?s")
    case False
    with ok assms(2,3) sz show ?thesis by (auto simp: solve_puzzle_def Let_def)
  next
    case True
    with ok have v: "validate_input ?s = Inr True" and ns: "\<not> isSolved ?s" by simp_all
    note p = validated_perm_board [OF assms(2) sz(1) v]
    have "\<exists>ro G'. (if sz = 4 then solve_4x4 G clk ?s moves_out else solve_5x5 G clk ?s moves_out) =
        Inr (ro, G') \<and> pdb_built G' \<and> solved_by ?s moves_out ro"
      using assms(1) solve_4x4_result [OF p(1) _ assms(3)] solve_5x5_result [OF p(1) _ assms(3)] p(2)
      by auto
    then obtain r0 out G' where
      s: "(if sz = 4 then solve_4x4 G clk ?s moves_out else solve_5x5 G clk ?s moves_out) =
        Inr ((r0, out), G')" "pdb_built G'" "solved_by ?s moves_out (r0, out)"
      by auto
    let ?r = "if 0 < r0 then r0 else - 1"
    from s(1) assms(1,2) v ns sz
    have e: "solve_puzzle G clk e0 arr sz moves_out = Inr ((?r, out), G')"
      by (auto simp: solve_puzzle_def Let_def split: if_splits)
    have r0: "r0 = -1 \<or> 0 < r0"
    proof (cases "r0 = -1")
      case False
      with s(3) obtain am st where a: "r0 = int (length am)" "apply_moves ?s am = Inr st"
        "isSolved st" by (auto simp: solved_by_def)
      with ns have "am \<noteq> []" by auto
      with a(1) show ?thesis by simp
    qed simp
    then have r: "?r = r0" by auto
    have old: "(?r = -1 \<and> out = moves_out) \<or>
        (0 < ?r \<and> legal_moves ?s (map out [0..<nat ?r]) \<and>
         validate_solution e0 arr sz (map out [0..<nat ?r]) ?r = Inr 1)"
    proof (cases "r0 = -1 \<and> out = moves_out")
      case True
      then show ?thesis by simp
    next
      case False
      with s(3) obtain am st where a: "r0 = int (length am)" "out = write_moves am moves_out"
        "legal_moves ?s am" "apply_moves ?s am = Inr st" "isSolved st"
        by (auto simp: solved_by_def)
      show ?thesis
      proof (cases "am = []")
        case True
        with a show ?thesis by (simp add: write_moves_Nil)
      next
        case False
        with a(1) have pos: "0 < r0" "nat r0 = length am" by simp_all
        from a(2) pos(2) have m: "map out [0..<nat r0] = am" by (simp add: write_moves_read)
        from a(4,5) assms(2) sz(2) pos
        have "validate_solution e0 arr sz am r0 = Inr 1"
          by (simp add: validate_solution_def)
        with pos(1) m a(3) show ?thesis by simp
      qed
    qed
    have n4: "tiles ?s ! j = arr ! j" if "j < 6" "sz = 4" for j
      using that by (intro PuzzleState_arr_nth) simp
    have n5: "tiles ?s ! j = arr ! j" if "j < 12" "sz = 5" for j
      using that by (intro PuzzleState_arr_nth) simp
    have new4: "(\<forall>i<6. (\<forall>j<i. uint (arr ! j) = int j + 1) \<and> uint (arr ! i) \<noteq> int i + 1 \<longrightarrow>
           (?r, out) = emitted (found_moves (ida_star G' (clk i) ?s 4 18 1 300000 4000
                                  (int ` {0..<i}))) moves_out) \<and>
        ((\<forall>j<6. uint (arr ! j) = int j + 1) \<longrightarrow>
           (?r, out) = emitted (case found_moves (ida_star G' (clk 6) ?s 4 40 2 800000 16000
                                       (int ` {0..<6})) of
                                  Some ms \<Rightarrow> Some ms
                                | None \<Rightarrow> found_moves (bibfs ?s 4 40 2 200000 (int ` {0..<6})))
                         moves_out)" if sz4: "sz = 4"
    proof -
      from p(2) sz4 have "size' ?s = 4" by simp
      from solve_4x4_outcome [OF p(1) this assms(3), of clk moves_out] obtain G4 where
        a: "\<And>i. i < 6 \<Longrightarrow> \<forall>j<i. uint (tiles ?s ! j) = int j + 1 \<Longrightarrow>
              uint (tiles ?s ! i) \<noteq> int i + 1 \<Longrightarrow>
              solve_4x4 G clk ?s moves_out =
                Inr (emitted (found_moves (ida_star G4 (clk i) ?s 4 18 1 300000 4000
                                (int ` {0..<i}))) moves_out, G4)"
        and b: "\<forall>j<6. uint (tiles ?s ! j) = int j + 1 \<Longrightarrow>
              solve_4x4 G clk ?s moves_out =
                Inr (emitted (case found_moves (ida_star G4 (clk 6) ?s 4 40 2 800000 16000
                                     (int ` {0..<6})) of
                                Some ms \<Rightarrow> Some ms
                              | None \<Rightarrow> found_moves (bibfs ?s 4 40 2 200000 (int ` {0..<6})))
                       moves_out, G4)"
        by blast
      show ?thesis
      proof (intro conjI allI impI)
        fix i assume i: "i < 6"
          "(\<forall>j<i. uint (arr ! j) = int j + 1) \<and> uint (arr ! i) \<noteq> int i + 1"
        then have "\<forall>j<i. uint (tiles ?s ! j) = int j + 1" "uint (tiles ?s ! i) \<noteq> int i + 1"
          using n4 [OF _ sz4] by auto
        from a [OF i(1) this] s(1) sz4 r
        show "(?r, out) = emitted (found_moves (ida_star G' (clk i) ?s 4 18 1 300000 4000
            (int ` {0..<i}))) moves_out" by auto
      next
        assume "\<forall>j<6. uint (arr ! j) = int j + 1"
        then have "\<forall>j<6. uint (tiles ?s ! j) = int j + 1" using n4 [OF _ sz4] by auto
        from b [OF this] s(1) sz4 r
        show "(?r, out) = emitted (case found_moves (ida_star G' (clk 6) ?s 4 40 2 800000 16000
                                       (int ` {0..<6})) of
                                  Some ms \<Rightarrow> Some ms
                                | None \<Rightarrow> found_moves (bibfs ?s 4 40 2 200000 (int ` {0..<6})))
                         moves_out" by auto
      qed
    qed
    have new5: "(\<forall>i<12. (\<forall>j<i. uint (arr ! j) = int j + 1) \<and> uint (arr ! i) \<noteq> int i + 1 \<longrightarrow>
           (?r, out) = emitted (found_moves (ida_star G' (clk i) ?s 5 25 1 250000 3000
                                  (int ` {0..<i}))) moves_out) \<and>
        ((\<forall>j<12. uint (arr ! j) = int j + 1) \<longrightarrow>
           (?r, out) = emitted (case find r_success
                                       (map (\<lambda>t. thread_ida_search G' (clk (12 + t)) ?s 5 60 2
                                                    400000 9000 (int ` {0..<12})) [0..<4]) of
                                  Some res \<Rightarrow> Some (r_moves res)
                                | None \<Rightarrow> found_moves (bibfs ?s 5 60 2 400000 (int ` {0..<12})))
                         moves_out)" if sz5: "sz = 5"
    proof -
      from p(2) sz5 have "size' ?s = 5" by simp
      from solve_5x5_outcome [OF p(1) this assms(3), of clk moves_out] obtain G5 where
        a: "\<And>i. i < 12 \<Longrightarrow> \<forall>j<i. uint (tiles ?s ! j) = int j + 1 \<Longrightarrow>
              uint (tiles ?s ! i) \<noteq> int i + 1 \<Longrightarrow>
              solve_5x5 G clk ?s moves_out =
                Inr (emitted (found_moves (ida_star G5 (clk i) ?s 5 25 1 250000 3000
                                (int ` {0..<i}))) moves_out, G5)"
        and b: "\<forall>j<12. uint (tiles ?s ! j) = int j + 1 \<Longrightarrow>
              solve_5x5 G clk ?s moves_out =
                Inr (emitted (case find r_success
                                     (map (\<lambda>t. thread_ida_search G5 (clk (12 + t)) ?s 5 60 2
                                                  400000 9000 (int ` {0..<12})) [0..<4]) of
                                Some res \<Rightarrow> Some (r_moves res)
                              | None \<Rightarrow> found_moves (bibfs ?s 5 60 2 400000 (int ` {0..<12})))
                       moves_out, G5)"
        by blast
      show ?thesis
      proof (intro conjI allI impI)
        fix i assume i: "i < 12"
          "(\<forall>j<i. uint (arr ! j) = int j + 1) \<and> uint (arr ! i) \<noteq> int i + 1"
        then have "\<forall>j<i. uint (tiles ?s ! j) = int j + 1" "uint (tiles ?s ! i) \<noteq> int i + 1"
          using n5 [OF _ sz5] by auto
        from a [OF i(1) this] s(1) sz5 r
        show "(?r, out) = emitted (found_moves (ida_star G' (clk i) ?s 5 25 1 250000 3000
            (int ` {0..<i}))) moves_out" by auto
      next
        assume "\<forall>j<12. uint (arr ! j) = int j + 1"
        then have "\<forall>j<12. uint (tiles ?s ! j) = int j + 1" using n5 [OF _ sz5] by auto
        from b [OF this] s(1) sz5 r
        show "(?r, out) = emitted (case find r_success
                                       (map (\<lambda>t. thread_ida_search G' (clk (12 + t)) ?s 5 60 2
                                                    400000 9000 (int ` {0..<12})) [0..<4]) of
                                  Some res \<Rightarrow> Some (r_moves res)
                                | None \<Rightarrow> found_moves (bibfs ?s 5 60 2 400000 (int ` {0..<12})))
                         moves_out" by auto
      qed
    qed
    from e s(2) v ns old new4 new5 show ?thesis
      by (intro exI [of _ ?r] exI [of _ out] exI [of _ G']) simp
  qed
qed

theorem solve_puzzle_correct_witness:
  "(\<exists>out G'.
      solve_puzzle
        \<lparr>pdb_4x4_stage1 = Map.empty, pdb_5x5_stage1 = Map.empty, pdb_5x5_stage2 = Map.empty\<rparr>
        (\<lambda>i k. 0) 0 [1, 2, 3, 4, 5, 6, 7, 8, 9, 10, 11, 12, 13, 0, 14, 15] 4 (\<lambda>i. 0) =
        Inr ((2, out), G') \<and>
      map out [0..<2] = [14, 15] \<and>
      validate_solution 0 [1, 2, 3, 4, 5, 6, 7, 8, 9, 10, 11, 12, 13, 0, 14, 15] 4 (map out [0..<2]) 2 =
        Inr 1) \<and>
   (\<exists>out G'.
      solve_puzzle
        \<lparr>pdb_4x4_stage1 = Map.empty, pdb_5x5_stage1 = Map.empty, pdb_5x5_stage2 = Map.empty\<rparr>
        (\<lambda>i k. 0) 0
        [1, 2, 3, 4, 5, 6, 7, 8, 9, 10, 11, 12, 13, 14, 15, 16, 17, 18, 19, 20, 21, 22, 0, 23, 24]
        5 (\<lambda>i. 0) =
        Inr ((2, out), G') \<and>
      map out [0..<2] = [23, 24] \<and>
      validate_solution 0
        [1, 2, 3, 4, 5, 6, 7, 8, 9, 10, 11, 12, 13, 14, 15, 16, 17, 18, 19, 20, 21, 22, 0, 23, 24]
        5 [23, 24] 2 = Inr 1) \<and>
   (\<exists>out G'.
      solve_puzzle
        \<lparr>pdb_4x4_stage1 = Map.empty, pdb_5x5_stage1 = Map.empty, pdb_5x5_stage2 = Map.empty\<rparr>
        (\<lambda>i k. 20000) 0 [1, 2, 3, 4, 5, 6, 8, 11, 9, 10, 7, 12, 13, 14, 15, 0] 4 (\<lambda>i. 0) =
        Inr ((6, out), G') \<and>
      map out [0..<6] = [12, 11, 8, 7, 11, 12] \<and>
      \<not> r_success (ida_star G' (\<lambda>k. 20000)
           \<lparr>tiles = [1, 2, 3, 4, 5, 6, 8, 11, 9, 10, 7, 12, 13, 14, 15, 0], size' = 4, empty' = 15\<rparr>
           4 40 2 800000 16000 {0, 1, 2, 3, 4, 5}) \<and>
      r_moves (bibfs
           \<lparr>tiles = [1, 2, 3, 4, 5, 6, 8, 11, 9, 10, 7, 12, 13, 14, 15, 0], size' = 4, empty' = 15\<rparr>
           4 40 2 200000 {0, 1, 2, 3, 4, 5}) = [12, 11, 8, 7, 11, 12] \<and>
      validate_solution 0 [1, 2, 3, 4, 5, 6, 8, 11, 9, 10, 7, 12, 13, 14, 15, 0] 4
        [12, 11, 8, 7, 11, 12] 6 = Inr 1) \<and>
   (\<exists>G'.
      solve_puzzle
        \<lparr>pdb_4x4_stage1 = Map.empty, pdb_5x5_stage1 = Map.empty, pdb_5x5_stage2 = Map.empty\<rparr>
        (\<lambda>i k. 20000) 0 [1, 2, 3, 4, 5, 10, 6, 8, 9, 7, 11, 12, 13, 14, 0, 15] 4 (\<lambda>i. 0) =
        Inr ((-1, \<lambda>i. 0), G') \<and>
      r_fail_reason (ida_star G' (\<lambda>k. 20000)
           \<lparr>tiles = [1, 2, 3, 4, 5, 10, 6, 8, 9, 7, 11, 12, 13, 14, 0, 15], size' = 4, empty' = 14\<rparr>
           4 18 1 300000 4000 {0, 1, 2, 3, 4}) = ''timeout'') \<and>
   (\<exists>out G'.
      solve_puzzle
        \<lparr>pdb_4x4_stage1 = Map.empty, pdb_5x5_stage1 = Map.empty, pdb_5x5_stage2 = Map.empty\<rparr>
        (\<lambda>i k. 0) 0 [1, 2, 3, 4, 5, 10, 6, 8, 9, 7, 11, 12, 13, 14, 0, 15] 4 (\<lambda>i. 0) =
        Inr ((7, out), G') \<and>
      map out [0..<7] = [11, 7, 10, 6, 7, 11, 15] \<and>
      validate_solution 0 [1, 2, 3, 4, 5, 10, 6, 8, 9, 7, 11, 12, 13, 14, 0, 15] 4
        [11, 7, 10, 6, 7, 11, 15] 7 = Inr 1)"
proof (intro conjI)
  let ?G = "\<lparr>pdb_4x4_stage1 = Map.empty, pdb_5x5_stage1 = Map.empty, pdb_5x5_stage2 = Map.empty\<rparr>"
  let ?G4 = "\<lparr>pdb_4x4_stage1 = [pdb_start 4 6 \<mapsto> 0], pdb_5x5_stage1 = Map.empty,
      pdb_5x5_stage2 = Map.empty\<rparr>"
  let ?G5 = "\<lparr>pdb_4x4_stage1 = Map.empty, pdb_5x5_stage1 = [pdb_start 5 12 \<mapsto> 0],
      pdb_5x5_stage2 = Map.empty\<rparr>"
  have g: "pdb_built ?G" by (simp add: pdb_built_def)
  show "\<exists>out G'.
      solve_puzzle ?G (\<lambda>i k. 0) 0 [1, 2, 3, 4, 5, 6, 7, 8, 9, 10, 11, 12, 13, 0, 14, 15] 4 (\<lambda>i. 0) =
        Inr ((2, out), G') \<and>
      map out [0..<2] = [14, 15] \<and>
      validate_solution 0 [1, 2, 3, 4, 5, 6, 7, 8, 9, 10, 11, 12, 13, 0, 14, 15] 4 (map out [0..<2]) 2 =
        Inr 1"
  proof -
    let ?arr = "[1, 2, 3, 4, 5, 6, 7, 8, 9, 10, 11, 12, 13, 0, 14, 15 :: uint8]"
    let ?s = "\<lparr>tiles = ?arr, size' = 4, empty' = 13\<rparr>"
    let ?S6 = "\<lparr>s_cur = ?s, s_locked = {0, 1, 2, 3, 4, 5}, s_all_moves = []\<rparr>"
    have ps: "PuzzleState_arr 0 ?arr 4 = ?s" by code_simp
    have v: "validate_input ?s = Inr True" by code_simp
    have ns: "\<not> isSolved ?s" by code_simp
    have st: "stage1_loop ?G4 (\<lambda>i k. 0) 4 18 300000 4000 6
        \<lparr>s_cur = ?s, s_locked = {}, s_all_moves = []\<rparr> = Inr (Some ?S6)" by code_simp
    have r2: "ida_star ?G4 (\<lambda>k. 0) ?s 4 40 2 800000 16000 {0, 1, 2, 3, 4, 5} =
        \<lparr>r_moves = [14, 15], r_success = True, r_nodes = 6, r_length = 2, r_fail_reason = []\<rparr>"
      by code_simp
    have ap: "apply_moves ?s [14, 15] =
        Inr \<lparr>tiles = [1, 2, 3, 4, 5, 6, 7, 8, 9, 10, 11, 12, 13, 14, 15, 0], size' = 4, empty' = 15\<rparr>"
      by code_simp
    have fi: "finish ?S6 [14, 15] (\<lambda>i. 0) = Inr (2, write_moves [14, 15] (\<lambda>i. 0))"
      by (simp add: finish_def ap del: apply_moves.simps)
    have s4: "solve_4x4 ?G (\<lambda>i k. 0) ?s (\<lambda>i. 0) = Inr ((2, write_moves [14, 15] (\<lambda>i. 0)), ?G4)"
      by (simp add: solve_4x4_def build_pdb_single st r2 fi)
    have e: "solve_puzzle ?G (\<lambda>i k. 0) 0 ?arr 4 (\<lambda>i. 0) =
        Inr ((2, write_moves [14, 15] (\<lambda>i. 0)), ?G4)"
      by (simp add: solve_puzzle_def ps v ns s4)
    have m: "map (write_moves [14, 15] (\<lambda>i. 0)) [0..<2] = [14, 15]"
      by code_simp
    have b: "\<forall>t \<in> set (take (nat (4 * 4)) ?arr). unat t < nat (4 * 4)" by simp
    from solve_puzzle_correct [where sz = 4 and arr = ?arr and G = ?G and clk = "\<lambda>i k. 0"
        and ?e0.0 = 0 and moves_out = "\<lambda>i. 0", OF _ _ g b] e ps v ns m
    have "validate_solution 0 ?arr 4 [14, 15] 2 = Inr 1" by simp
    with e m show ?thesis by auto
  qed
  show "\<exists>out G'.
      solve_puzzle ?G (\<lambda>i k. 0) 0
        [1, 2, 3, 4, 5, 6, 7, 8, 9, 10, 11, 12, 13, 14, 15, 16, 17, 18, 19, 20, 21, 22, 0, 23, 24]
        5 (\<lambda>i. 0) =
        Inr ((2, out), G') \<and>
      map out [0..<2] = [23, 24] \<and>
      validate_solution 0
        [1, 2, 3, 4, 5, 6, 7, 8, 9, 10, 11, 12, 13, 14, 15, 16, 17, 18, 19, 20, 21, 22, 0, 23, 24]
        5 [23, 24] 2 = Inr 1"
  proof -
    let ?arr = "[1, 2, 3, 4, 5, 6, 7, 8, 9, 10, 11, 12, 13, 14, 15, 16, 17, 18, 19, 20, 21, 22, 0,
        23, 24 :: uint8]"
    let ?s = "\<lparr>tiles = ?arr, size' = 5, empty' = 22\<rparr>"
    let ?S12 = "\<lparr>s_cur = ?s, s_locked = {0, 1, 2, 3, 4, 5, 6, 7, 8, 9, 10, 11}, s_all_moves = []\<rparr>"
    have ps: "PuzzleState_arr 0 ?arr 5 = ?s" by code_simp
    have v: "validate_input ?s = Inr True" by code_simp
    have ns: "\<not> isSolved ?s" by code_simp
    have st: "stage1_loop ?G5 (\<lambda>i k. 0) 5 25 250000 3000 12
        \<lparr>s_cur = ?s, s_locked = {}, s_all_moves = []\<rparr> = Inr (Some ?S12)" by code_simp
    have r2: "thread_ida_search ?G5 (\<lambda>k. 0) ?s 5 60 2 400000 9000
        {0, 1, 2, 3, 4, 5, 6, 7, 8, 9, 10, 11} =
        \<lparr>r_moves = [23, 24], r_success = True, r_nodes = 6, r_length = 2, r_fail_reason = []\<rparr>"
      by code_simp
    have ap: "apply_moves ?s [23, 24] =
        Inr \<lparr>tiles = [1, 2, 3, 4, 5, 6, 7, 8, 9, 10, 11, 12, 13, 14, 15, 16, 17, 18, 19, 20, 21,
                22, 23, 24, 0], size' = 5, empty' = 24\<rparr>"
      by code_simp
    have fi: "finish ?S12 [23, 24] (\<lambda>i. 0) = Inr (2, write_moves [23, 24] (\<lambda>i. 0))"
      by (simp add: finish_def ap del: apply_moves.simps)
    have s5: "solve_5x5 ?G (\<lambda>i k. 0) ?s (\<lambda>i. 0) = Inr ((2, write_moves [23, 24] (\<lambda>i. 0)), ?G5)"
      by (simp add: solve_5x5_def build_pdb_single st r2 fi upt_4)
    have e: "solve_puzzle ?G (\<lambda>i k. 0) 0 ?arr 5 (\<lambda>i. 0) =
        Inr ((2, write_moves [23, 24] (\<lambda>i. 0)), ?G5)"
      by (simp add: solve_puzzle_def ps v ns s5)
    have m: "map (write_moves [23, 24] (\<lambda>i. 0)) [0..<2] = [23, 24]"
      by code_simp
    have "validate_solution 0 ?arr 5 [23, 24] 2 = Inr 1" by code_simp
    with e m show ?thesis by auto
  qed
  show "\<exists>out G'.
      solve_puzzle ?G (\<lambda>i k. 20000) 0 [1, 2, 3, 4, 5, 6, 8, 11, 9, 10, 7, 12, 13, 14, 15, 0] 4
        (\<lambda>i. 0) =
        Inr ((6, out), G') \<and>
      map out [0..<6] = [12, 11, 8, 7, 11, 12] \<and>
      \<not> r_success (ida_star G' (\<lambda>k. 20000)
           \<lparr>tiles = [1, 2, 3, 4, 5, 6, 8, 11, 9, 10, 7, 12, 13, 14, 15, 0], size' = 4, empty' = 15\<rparr>
           4 40 2 800000 16000 {0, 1, 2, 3, 4, 5}) \<and>
      r_moves (bibfs
           \<lparr>tiles = [1, 2, 3, 4, 5, 6, 8, 11, 9, 10, 7, 12, 13, 14, 15, 0], size' = 4, empty' = 15\<rparr>
           4 40 2 200000 {0, 1, 2, 3, 4, 5}) = [12, 11, 8, 7, 11, 12] \<and>
      validate_solution 0 [1, 2, 3, 4, 5, 6, 8, 11, 9, 10, 7, 12, 13, 14, 15, 0] 4
        [12, 11, 8, 7, 11, 12] 6 = Inr 1"
  proof -
    let ?arr = "[1, 2, 3, 4, 5, 6, 8, 11, 9, 10, 7, 12, 13, 14, 15, 0 :: uint8]"
    let ?s = "\<lparr>tiles = ?arr, size' = 4, empty' = 15\<rparr>"
    let ?S6 = "\<lparr>s_cur = ?s, s_locked = {0, 1, 2, 3, 4, 5}, s_all_moves = []\<rparr>"
    have ps: "PuzzleState_arr 0 ?arr 4 = ?s" by code_simp
    have v: "validate_input ?s = Inr True" by code_simp
    have ns: "\<not> isSolved ?s" by code_simp
    have st: "stage1_loop ?G4 (\<lambda>i k. 20000) 4 18 300000 4000 6
        \<lparr>s_cur = ?s, s_locked = {}, s_all_moves = []\<rparr> = Inr (Some ?S6)" by code_simp
    have r2: "ida_star ?G4 (\<lambda>k. 20000) ?s 4 40 2 800000 16000 {0, 1, 2, 3, 4, 5} =
        \<lparr>r_moves = [], r_success = False, r_nodes = 3, r_length = 0, r_fail_reason = ''timeout''\<rparr>"
      by code_simp
    have r3: "bibfs ?s 4 40 2 200000 {0, 1, 2, 3, 4, 5} =
        \<lparr>r_moves = [12, 11, 8, 7, 11, 12], r_success = True, r_nodes = 57, r_length = 6,
          r_fail_reason = []\<rparr>"
      by code_simp
    have ap: "apply_moves ?s [12, 11, 8, 7, 11, 12] =
        Inr \<lparr>tiles = [1, 2, 3, 4, 5, 6, 7, 8, 9, 10, 11, 12, 13, 14, 15, 0], size' = 4, empty' = 15\<rparr>"
      by code_simp
    have fi: "finish ?S6 [12, 11, 8, 7, 11, 12] (\<lambda>i. 0) =
        Inr (6, write_moves [12, 11, 8, 7, 11, 12] (\<lambda>i. 0))"
      by (simp add: finish_def ap del: apply_moves.simps)
    have s4: "solve_4x4 ?G (\<lambda>i k. 20000) ?s (\<lambda>i. 0) =
        Inr ((6, write_moves [12, 11, 8, 7, 11, 12] (\<lambda>i. 0)), ?G4)"
      by (simp add: solve_4x4_def build_pdb_single st r2 r3 fi)
    have e: "solve_puzzle ?G (\<lambda>i k. 20000) 0 ?arr 4 (\<lambda>i. 0) =
        Inr ((6, write_moves [12, 11, 8, 7, 11, 12] (\<lambda>i. 0)), ?G4)"
      by (simp add: solve_puzzle_def ps v ns s4)
    have m: "map (write_moves [12, 11, 8, 7, 11, 12] (\<lambda>i. 0)) [0..<6] = [12, 11, 8, 7, 11, 12]"
      by code_simp
    have "validate_solution 0 ?arr 4 [12, 11, 8, 7, 11, 12] 6 = Inr 1" by code_simp
    with e m r2 r3 show ?thesis by auto
  qed
  show "\<exists>G'.
      solve_puzzle ?G (\<lambda>i k. 20000) 0 [1, 2, 3, 4, 5, 10, 6, 8, 9, 7, 11, 12, 13, 14, 0, 15] 4
        (\<lambda>i. 0) =
        Inr ((-1, \<lambda>i. 0), G') \<and>
      r_fail_reason (ida_star G' (\<lambda>k. 20000)
           \<lparr>tiles = [1, 2, 3, 4, 5, 10, 6, 8, 9, 7, 11, 12, 13, 14, 0, 15], size' = 4, empty' = 14\<rparr>
           4 18 1 300000 4000 {0, 1, 2, 3, 4}) = ''timeout''"
  proof -
    let ?arr = "[1, 2, 3, 4, 5, 10, 6, 8, 9, 7, 11, 12, 13, 14, 0, 15 :: uint8]"
    let ?s = "\<lparr>tiles = ?arr, size' = 4, empty' = 14\<rparr>"
    have ps: "PuzzleState_arr 0 ?arr 4 = ?s" by code_simp
    have v: "validate_input ?s = Inr True" by code_simp
    have ns: "\<not> isSolved ?s" by code_simp
    have st: "stage1_loop ?G4 (\<lambda>i k. 20000) 4 18 300000 4000 6
        \<lparr>s_cur = ?s, s_locked = {}, s_all_moves = []\<rparr> = Inr None" by code_simp
    have r1: "ida_star ?G4 (\<lambda>k. 20000) ?s 4 18 1 300000 4000 {0, 1, 2, 3, 4} =
        \<lparr>r_moves = [], r_success = False, r_nodes = 5, r_length = 0, r_fail_reason = ''timeout''\<rparr>"
      by code_simp
    have s4: "solve_4x4 ?G (\<lambda>i k. 20000) ?s (\<lambda>i. 0) = Inr ((-1, \<lambda>i. 0), ?G4)"
      by (simp add: solve_4x4_def build_pdb_single st)
    have e: "solve_puzzle ?G (\<lambda>i k. 20000) 0 ?arr 4 (\<lambda>i. 0) = Inr ((-1, \<lambda>i. 0), ?G4)"
      by (simp add: solve_puzzle_def ps v ns s4)
    with r1 show ?thesis by auto
  qed
  show "\<exists>out G'.
      solve_puzzle ?G (\<lambda>i k. 0) 0 [1, 2, 3, 4, 5, 10, 6, 8, 9, 7, 11, 12, 13, 14, 0, 15] 4 (\<lambda>i. 0) =
        Inr ((7, out), G') \<and>
      map out [0..<7] = [11, 7, 10, 6, 7, 11, 15] \<and>
      validate_solution 0 [1, 2, 3, 4, 5, 10, 6, 8, 9, 7, 11, 12, 13, 14, 0, 15] 4
        [11, 7, 10, 6, 7, 11, 15] 7 = Inr 1"
  proof -
    let ?arr = "[1, 2, 3, 4, 5, 10, 6, 8, 9, 7, 11, 12, 13, 14, 0, 15 :: uint8]"
    let ?s = "\<lparr>tiles = ?arr, size' = 4, empty' = 14\<rparr>"
    let ?t = "\<lparr>tiles = [1, 2, 3, 4, 5, 6, 7, 8, 9, 10, 11, 12, 13, 14, 15, 0 :: uint8], size' = 4,
        empty' = 15\<rparr>"
    let ?S6 = "\<lparr>s_cur = ?t, s_locked = {0, 1, 2, 3, 4, 5}, s_all_moves = [11, 7, 10, 6, 7, 11, 15]\<rparr>"
    have ps: "PuzzleState_arr 0 ?arr 4 = ?s" by code_simp
    have v: "validate_input ?s = Inr True" by code_simp
    have ns: "\<not> isSolved ?s" by code_simp
    have st: "stage1_loop ?G4 (\<lambda>i k. 0) 4 18 300000 4000 6
        \<lparr>s_cur = ?s, s_locked = {}, s_all_moves = []\<rparr> = Inr (Some ?S6)" by code_simp
    have r2: "ida_star ?G4 (\<lambda>k. 0) ?t 4 40 2 800000 16000 {0, 1, 2, 3, 4, 5} =
        \<lparr>r_moves = [], r_success = True, r_nodes = 1, r_length = 0, r_fail_reason = []\<rparr>"
      by code_simp
    have fi: "finish ?S6 [] (\<lambda>i. 0) = Inr (7, write_moves [11, 7, 10, 6, 7, 11, 15] (\<lambda>i. 0))"
      by (simp add: finish_def)
    have s4: "solve_4x4 ?G (\<lambda>i k. 0) ?s (\<lambda>i. 0) =
        Inr ((7, write_moves [11, 7, 10, 6, 7, 11, 15] (\<lambda>i. 0)), ?G4)"
      by (simp add: solve_4x4_def build_pdb_single st r2 fi)
    have e: "solve_puzzle ?G (\<lambda>i k. 0) 0 ?arr 4 (\<lambda>i. 0) =
        Inr ((7, write_moves [11, 7, 10, 6, 7, 11, 15] (\<lambda>i. 0)), ?G4)"
      by (simp add: solve_puzzle_def ps v ns s4)
    have m: "map (write_moves [11, 7, 10, 6, 7, 11, 15] (\<lambda>i. 0)) [0..<7] = [11, 7, 10, 6, 7, 11, 15]"
      by code_simp
    have "validate_solution 0 ?arr 4 [11, 7, 10, 6, 7, 11, 15] 7 = Inr 1" by code_simp
    with e m show ?thesis by auto
  qed
qed

end
